theory Spec2Isabelle
  imports Main
begin

section \<open>Download file names (background.js and content script)\<close>

text \<open>
  JavaScript strings are sequences of UTF-16 code units; a code unit is a natural number.
  An absent, \<^verbatim>\<open>undefined\<close> or \<^verbatim>\<open>null\<close> string argument is \<open>None\<close>.
\<close>

type_synonym jsstring = "nat list"

definition js :: "string \<Rightarrow> jsstring" where
  "js s = map of_char s"

text \<open>
  The character class \<^verbatim>\<open>[\\/:*?"<>|]\<close> of both regular expressions: backslash, slash,
  colon, asterisk, question mark, double quote, less-than, greater-than, vertical bar.
\<close>

definition is_forbidden :: "nat \<Rightarrow> bool" where
  "is_forbidden c \<longleftrightarrow> c \<in> set [92, 47, 58, 42, 63, 34, 60, 62, 124]"

text \<open>
  What \<^verbatim>\<open>String.prototype.trim\<close> strips and \<^verbatim>\<open>\s\<close> matches: the ECMAScript WhiteSpace and
  LineTerminator code units.
\<close>

definition is_space :: "nat \<Rightarrow> bool" where
  "is_space c \<longleftrightarrow>
     c \<in> set [9, 10, 11, 12, 13, 32, 160, 5760, 8232, 8233, 8239, 8287, 12288, 65279]
     \<or> (8192 \<le> c \<and> c \<le> 8202)"

definition trim :: "jsstring \<Rightarrow> jsstring" where
  "trim s = rev (dropWhile is_space (rev (dropWhile is_space s)))"

text \<open>\<^verbatim>\<open>s.replace(/[\\/:*?"<>|]/g, "_")\<close>; 95 is the underscore.\<close>

definition replace_forbidden :: "jsstring \<Rightarrow> jsstring" where
  "replace_forbidden s = map (\<lambda>c. if is_forbidden c then 95 else c) s"

text \<open>\<^verbatim>\<open>x || d\<close> on a string: the empty string is falsy, as is an absent one.\<close>

definition str_or :: "jsstring option \<Rightarrow> jsstring \<Rightarrow> jsstring" where
  "str_or x d = (case x of None \<Rightarrow> d | Some s \<Rightarrow> if s = [] then d else s)"

definition sanitizeFilename :: "jsstring option \<Rightarrow> jsstring" where
  "sanitizeFilename name =
     (let n = str_or name (js ''flow_video.mp4'');
          n = replace_forbidden n
      in if trim n = [] then js ''flow_video.mp4'' else n)"

text \<open>
  The \<^verbatim>\<open>FLOW_BATCH_DOWNLOAD\<close> handler hands
  \<^verbatim>\<open>sanitizeFilename(filename || "flow_video.mp4")\<close> to \<^verbatim>\<open>chrome.downloads.download\<close>.
\<close>

definition download_safeFilename :: "jsstring option \<Rightarrow> jsstring" where
  "download_safeFilename filename =
     sanitizeFilename (Some (str_or filename (js ''flow_video.mp4'')))"

text \<open>
  \<^verbatim>\<open>s.split(/\s+/)\<close>: every maximal run of white space is one separator; a separator at
  either end leaves an empty field there, and the empty string splits into one empty field.
\<close>

function split_ws :: "jsstring \<Rightarrow> jsstring list" where
  "split_ws s =
     (let w = takeWhile (\<lambda>c. \<not> is_space c) s;
          r = dropWhile (\<lambda>c. \<not> is_space c) s
      in if r = [] then [w] else w # split_ws (dropWhile is_space r))"
  by pat_completeness auto
termination
proof (relation "measure length")
  show "wf (measure length)" by simp
next
  fix s :: jsstring and w r
  assume r: "r = dropWhile (\<lambda>c. \<not> is_space c) s" and ne: "r \<noteq> []"
  from ne obtain c cs where rc: "r = c # cs" by (cases r) auto
  have "length (dropWhile is_space r) \<le> length cs"
  proof -
    have "is_space c" using r rc by (metis hd_dropWhile list.sel(1) ne)
    then have "dropWhile is_space r = dropWhile is_space cs" using rc by simp
    then show ?thesis by (simp add: length_dropWhile_le)
  qed
  moreover have "length r \<le> length s" using r by (simp add: length_dropWhile_le)
  ultimately show "(dropWhile is_space r, s) \<in> measure length" using rc by simp
qed

text \<open>\<^verbatim>\<open>words.join('_')\<close>.\<close>

fun join_underscore :: "jsstring list \<Rightarrow> jsstring" where
  "join_underscore [] = []"
| "join_underscore [w] = w"
| "join_underscore (w # ws) = w @ 95 # join_underscore ws"

definition generatePromptSnippet :: "jsstring option \<Rightarrow> jsstring" where
  "generatePromptSnippet prompt =
     (case prompt of
        None \<Rightarrow> js ''no_prompt''
      | Some p \<Rightarrow>
          if p = [] then js ''no_prompt''
          else
            let ws = split_ws (trim p);
                snippet = (if length ws > 1 then join_underscore (take 5 ws)
                           else take 15 (trim p));
                cleaned = replace_forbidden snippet
            in if cleaned = [] then js ''no_prompt'' else cleaned)"

text \<open>Decimal rendering of a non-negative integer, as a template literal renders it.\<close>

function decimal :: "nat \<Rightarrow> jsstring" where
  "decimal n = (if n < 10 then [48 + n] else decimal (n div 10) @ [48 + n mod 10])"
  by pat_completeness auto
termination
  by (relation "measure id") auto

text \<open>
  The name \<^verbatim>\<open>downloadVideo\<close> builds:
  \<^verbatim>\<open>`${taskIndex + 1}_${this.generatePromptSnippet(prompt)}_${Date.now()}.mp4`\<close>.
\<close>

definition downloadVideo_filename :: "nat \<Rightarrow> jsstring option \<Rightarrow> nat \<Rightarrow> jsstring" where
  "downloadVideo_filename taskIndex prompt now =
     decimal (taskIndex + 1) @ js ''_'' @ generatePromptSnippet prompt @ js ''_''
       @ decimal now @ js ''.mp4''"

text \<open>
  A prompt written out as its words and the white space between them: \<open>spaced w rest\<close> is
  the word \<open>w\<close> followed, for each pair of \<open>rest\<close>, by a separator and a further word.
  A word is a non-empty string without white space; a gap is a non-empty string of white
  space. Every string that is not blank is \<open>pre @ spaced w rest @ post\<close> for blank \<open>pre\<close>,
  \<open>post\<close>, a word \<open>w\<close> and gaps and words in \<open>rest\<close>.
\<close>

fun spaced :: "jsstring \<Rightarrow> (jsstring \<times> jsstring) list \<Rightarrow> jsstring" where
  "spaced w [] = w"
| "spaced w ((sep, w') # rest) = w @ sep @ spaced w' rest"

definition is_word :: "jsstring \<Rightarrow> bool" where
  "is_word w \<longleftrightarrow> w \<noteq> [] \<and> list_all (\<lambda>c. \<not> is_space c) w"

definition is_gap :: "jsstring \<Rightarrow> bool" where
  "is_gap sep \<longleftrightarrow> sep \<noteq> [] \<and> list_all is_space sep"

section \<open>The persisted queue state\<close>

text \<open>
  The object stored under \<^verbatim>\<open>flowBatchQueueState\<close>. A JavaScript object may lack any of its
  properties, so every field is optional: \<open>None\<close> is \<^verbatim>\<open>undefined\<close>.
\<close>

record queue_state =
  totalTasks :: "int option"
  currentIndex :: "int option"
  running :: "bool option"
  paused :: "bool option"
  successCount :: "int option"
  failCount :: "int option"
  pendingTasks :: "int option"
  flowMode :: "jsstring option"
  cropMode :: "jsstring option"
  createdAt :: "nat option"
  queueId :: "jsstring option"

text \<open>The object \<^verbatim>\<open>{}\<close>, and an update object that sets no field.\<close>

definition no_fields :: queue_state where
  "no_fields = \<lparr>totalTasks = None, currentIndex = None, running = None, paused = None,
     successCount = None, failCount = None, pendingTasks = None, flowMode = None,
     cropMode = None, createdAt = None, queueId = None\<rparr>"

text \<open>\<^verbatim>\<open>x || 0\<close> on a number, and the truthiness of a boolean property.\<close>

definition num_or0 :: "int option \<Rightarrow> int" where
  "num_or0 x = (case x of None \<Rightarrow> 0 | Some v \<Rightarrow> v)"

definition truthy :: "bool option \<Rightarrow> bool" where
  "truthy b \<longleftrightarrow> b = Some True"

text \<open>
  \<^verbatim>\<open>a >= n\<close> and \<^verbatim>\<open>a < b\<close> on properties: a comparison with \<^verbatim>\<open>undefined\<close> is false.
\<close>

definition js_ge :: "int option \<Rightarrow> int \<Rightarrow> bool" where
  "js_ge a n = (case a of None \<Rightarrow> False | Some i \<Rightarrow> i \<ge> n)"

definition js_lt :: "int option \<Rightarrow> int option \<Rightarrow> bool" where
  "js_lt a b = (case a of None \<Rightarrow> False
                | Some i \<Rightarrow> (case b of None \<Rightarrow> False | Some j \<Rightarrow> i < j))"

text \<open>\<^verbatim>\<open>{ ...currentState, ...updates }\<close>: a field of \<open>updates\<close> wins where it is set.\<close>

definition orelse :: "'a option \<Rightarrow> 'a option \<Rightarrow> 'a option" where
  "orelse u c = (case u of None \<Rightarrow> c | Some v \<Rightarrow> Some v)"

definition merge :: "queue_state \<Rightarrow> queue_state \<Rightarrow> queue_state" where
  "merge cur upd =
     \<lparr>totalTasks = orelse (totalTasks upd) (totalTasks cur),
      currentIndex = orelse (currentIndex upd) (currentIndex cur),
      running = orelse (running upd) (running cur),
      paused = orelse (paused upd) (paused cur),
      successCount = orelse (successCount upd) (successCount cur),
      failCount = orelse (failCount upd) (failCount cur),
      pendingTasks = orelse (pendingTasks upd) (pendingTasks cur),
      flowMode = orelse (flowMode upd) (flowMode cur),
      cropMode = orelse (cropMode upd) (cropMode cur),
      createdAt = orelse (createdAt upd) (createdAt cur),
      queueId = orelse (queueId upd) (queueId cur)\<rparr>"

section \<open>The content script: memory, storage and running activations\<close>

text \<open>The object stored under \<^verbatim>\<open>flowBatchTaskMetadata\<close> and sent with \<^verbatim>\<open>FLOW_BATCH_START\<close>.\<close>

record task_metadata =
  md_totalTasks :: int
  md_promptList :: "jsstring list option"
  md_filenameList :: "jsstring list"
  md_flowMode :: jsstring
  md_cropMode :: jsstring

text \<open>
  Where one activation of \<^verbatim>\<open>processQueue\<close> stands. An activation runs without interruption
  from one storage access to the next; at each \<^verbatim>\<open>await\<close> of \<^verbatim>\<open>loadQueueState\<close>,
  \<^verbatim>\<open>updateQueueState\<close> or \<^verbatim>\<open>sleep\<close> other activations may run. A state read before such a
  point is carried in the control point, as the local variable that holds it.
\<close>

datatype loop_pc =
    LTop                        \<comment> \<open>at \<^verbatim>\<open>while (this.queueRunning)\<close>\<close>
  | LCompleteWrite              \<comment> \<open>"Queue completed" logged, before its \<^verbatim>\<open>updateQueueState\<close>\<close>
  | LExec int                   \<comment> \<open>inside the \<^verbatim>\<open>try\<close> of \<^verbatim>\<open>processTask(i)\<close>, not yet submitted\<close>
  | LIncWrite int queue_state   \<comment> \<open>submitted, state read, before the write of \<^verbatim>\<open>pendingTasks + 1\<close>\<close>
  | LAdvLoad int                \<comment> \<open>\<^verbatim>\<open>processTask(i)\<close> returned, before the reload\<close>
  | LAdvWrite queue_state       \<comment> \<open>\<^verbatim>\<open>updatedState\<close> prepared, before its write\<close>
  | LTaskFailWrite queue_state  \<comment> \<open>in the \<^verbatim>\<open>catch\<close> of \<^verbatim>\<open>processTask\<close>, state read\<close>
  | LCatchLoad                  \<comment> \<open>in the \<^verbatim>\<open>catch\<close> of \<^verbatim>\<open>processQueue\<close>, before the reload\<close>
  | LCatchWrite queue_state     \<comment> \<open>in that \<^verbatim>\<open>catch\<close>, state prepared, before its write\<close>
  | LTrailWrite                 \<comment> \<open>after the loop, before \<^verbatim>\<open>updateQueueState({ running: false })\<close>\<close>
  | LExit                       \<comment> \<open>\<^verbatim>\<open>processQueue\<close> has returned\<close>

text \<open>
  Where one activation of \<^verbatim>\<open>waitForTaskCompletion\<close> stands. The class declares this method
  twice; the later declaration is the one in effect and the one modelled.
\<close>

datatype watch_pc =
    WWait int                   \<comment> \<open>inside \<^verbatim>\<open>waitForGeneration\<close> for this task index\<close>
  | WSuccWrite int int          \<comment> \<open>\<^verbatim>\<open>newSuccessCount\<close>, \<^verbatim>\<open>newPendingTasks\<close> computed, before the write\<close>
  | WVerify int                 \<comment> \<open>before the read of \<^verbatim>\<open>verifyState\<close>\<close>
  | WRetryWrite int             \<comment> \<open>counts differ, before the repeated write\<close>
  | WFailWrite int int          \<comment> \<open>in the \<^verbatim>\<open>catch\<close>: \<^verbatim>\<open>newPendingTasks\<close>, new \<^verbatim>\<open>failCount\<close>\<close>
  | WDone

record system =
  store :: "queue_state option"           \<comment> \<open>\<^verbatim>\<open>chrome.storage.local\<close>, key \<^verbatim>\<open>flowBatchQueueState\<close>\<close>
  storeMeta :: "task_metadata option"     \<comment> \<open>key \<^verbatim>\<open>flowBatchTaskMetadata\<close>\<close>
  queueRunning :: bool                    \<comment> \<open>\<^verbatim>\<open>this.queueRunning\<close>\<close>
  currentTaskPointer :: int               \<comment> \<open>\<^verbatim>\<open>this.currentTaskPointer\<close>\<close>
  currentQueueId :: "nat option"          \<comment> \<open>\<^verbatim>\<open>this.currentQueueId\<close>\<close>
  metadata :: "task_metadata option"      \<comment> \<open>\<^verbatim>\<open>this.metadata\<close>\<close>
  loops :: "loop_pc list"                 \<comment> \<open>the activations of \<^verbatim>\<open>processQueue\<close>\<close>
  watches :: "watch_pc list"              \<comment> \<open>the activations of \<^verbatim>\<open>waitForTaskCompletion\<close>\<close>

definition QUEUE_LIMIT :: int where
  "QUEUE_LIMIT = 4"

definition loadQueueState :: "system \<Rightarrow> queue_state option" where
  "loadQueueState sys = store sys"

text \<open>
  \<^verbatim>\<open>updateQueueState(updates)\<close>: read the stored state (or \<^verbatim>\<open>{}\<close>), spread the updates over
  it, store the result. Here its body is one step, as its lock on \<^verbatim>\<open>this._updatingState\<close>
  is meant to make it; the body is modelled \<^verbatim>\<open>await\<close> by \<^verbatim>\<open>await\<close> further below.
\<close>

definition updateQueueState :: "queue_state \<Rightarrow> system \<Rightarrow> system" where
  "updateQueueState updates sys =
     sys\<lparr>store := Some (merge (case loadQueueState sys of None \<Rightarrow> no_fields | Some c \<Rightarrow> c)
                              updates)\<rparr>"

subsection \<open>processTask and processQueue\<close>

text \<open>
  What the page does to one submission, from \<^verbatim>\<open>requestFileData\<close> to the click in
  \<^verbatim>\<open>submitForGeneration\<close>: one of these steps throws, or the click succeeds.
\<close>

datatype exec_outcome = ExecFail | SubmitOk

text \<open>
  The statements of \<^verbatim>\<open>processTask\<close> before its \<^verbatim>\<open>try\<close>: the index check, and
  \<^verbatim>\<open>promptList[taskIndex].substring\<close>, which throws a TypeError on a missing prompt.
\<close>

definition processTask_throws_early :: "system \<Rightarrow> int \<Rightarrow> bool" where
  "processTask_throws_early sys taskIndex =
     (case metadata sys of
        None \<Rightarrow> True
      | Some md \<Rightarrow>
          taskIndex < 0 \<or> taskIndex \<ge> md_totalTasks md
          \<or> (case md_promptList md of
                None \<Rightarrow> True
              | Some ps \<Rightarrow> \<not> nat taskIndex < length ps))"

text \<open>Entry of the \<^verbatim>\<open>catch\<close> block of \<^verbatim>\<open>processQueue\<close>, up to its \<^verbatim>\<open>loadQueueState\<close>.\<close>

definition catch_entry :: "system \<Rightarrow> loop_pc \<times> system" where
  "catch_entry sys = (if \<not> queueRunning sys then (LExit, sys) else (LCatchLoad, sys))"

fun loop_step :: "exec_outcome \<Rightarrow> loop_pc \<Rightarrow> system \<Rightarrow> loop_pc \<times> system" where
  "loop_step oc LTop sys =
     (if \<not> queueRunning sys then (LExit, sys)
      else case loadQueueState sys of
        None \<Rightarrow> (LExit, sys\<lparr>queueRunning := False, currentTaskPointer := 0\<rparr>)
      | Some state \<Rightarrow>
          if js_ge (currentIndex state) (num_or0 (totalTasks state)) then
            (if num_or0 (pendingTasks state) > 0 then (LTop, sys)
             else (LCompleteWrite,
                   sys\<lparr>queueRunning := False,
                       currentTaskPointer := num_or0 (totalTasks state)\<rparr>))
          else if truthy (paused state) then (LTop, sys)
          else
            let idx = (case currentIndex state of None \<Rightarrow> 0 | Some i \<Rightarrow> i);
                sys1 = sys\<lparr>currentTaskPointer := idx\<rparr>
            in if num_or0 (pendingTasks state) \<ge> QUEUE_LIMIT then (LTop, sys1)
               else if processTask_throws_early sys1 idx then catch_entry sys1
               else (LExec idx, sys1))"
| "loop_step oc LCompleteWrite sys =
     (let sys1 = updateQueueState
                   (no_fields\<lparr>running := Some False, paused := Some False,
                              pendingTasks := Some 0\<rparr>) sys
      in if queueRunning sys1 then (LTrailWrite, sys1\<lparr>queueRunning := False\<rparr>)
         else (LExit, sys1))"
| "loop_step oc (LExec idx) sys =
     (case oc of
        SubmitOk \<Rightarrow>
          (case loadQueueState sys of
             None \<Rightarrow> (LAdvLoad idx, sys\<lparr>watches := watches sys @ [WWait idx]\<rparr>)
           | Some state \<Rightarrow> (LIncWrite idx state, sys))
      | ExecFail \<Rightarrow>
          (case loadQueueState sys of
             None \<Rightarrow> catch_entry sys
           | Some state \<Rightarrow> (LTaskFailWrite state, sys)))"
| "loop_step oc (LIncWrite idx state) sys =
     (let sys1 = updateQueueState
                   (no_fields\<lparr>pendingTasks := Some (num_or0 (pendingTasks state) + 1)\<rparr>) sys
      in (LAdvLoad idx, sys1\<lparr>watches := watches sys1 @ [WWait idx]\<rparr>))"
| "loop_step oc (LAdvLoad idx) sys =
     (let updatedState = (case loadQueueState sys of None \<Rightarrow> no_fields | Some st \<Rightarrow> st)
      in (LAdvWrite (updatedState\<lparr>currentIndex := Some (idx + 1)\<rparr>),
          sys\<lparr>currentTaskPointer := idx + 1\<rparr>))"
| "loop_step oc (LAdvWrite updatedState) sys = (LTop, updateQueueState updatedState sys)"
| "loop_step oc (LTaskFailWrite state) sys =
     catch_entry
       (updateQueueState
          (no_fields\<lparr>pendingTasks := Some (max 0 (num_or0 (pendingTasks state) - 1)),
                     failCount := Some (num_or0 (failCount state) + 1)\<rparr>) sys)"
| "loop_step oc LCatchLoad sys =
     (case loadQueueState sys of
        Some state \<Rightarrow>
          (LCatchWrite (state\<lparr>failCount := Some (num_or0 (failCount state) + 1),
                             currentIndex := Some (num_or0 (currentIndex state) + 1)\<rparr>),
           sys\<lparr>currentTaskPointer := num_or0 (currentIndex state) + 1\<rparr>)
      | None \<Rightarrow> (LExit, sys\<lparr>queueRunning := False\<rparr>))"
| "loop_step oc (LCatchWrite state) sys = (LTop, updateQueueState state sys)"
| "loop_step oc LTrailWrite sys =
     (LExit, updateQueueState (no_fields\<lparr>running := Some False\<rparr>) sys)"
| "loop_step oc LExit sys = (LExit, sys)"

subsection \<open>waitForTaskCompletion\<close>

datatype download_result = DownloadOk | DownloadFailed

text \<open>
  How \<^verbatim>\<open>waitForGeneration\<close> ends: it throws (time-out, no usable video), or it returns the
  video's address and \<^verbatim>\<open>downloadVideo\<close> then resolves or rejects.
\<close>

datatype watch_outcome = GenerationFailed | VideoReady download_result

fun watch_step :: "watch_outcome \<Rightarrow> watch_pc \<Rightarrow> system \<Rightarrow> watch_pc \<times> system" where
  "watch_step wo (WWait idx) sys =
     (case wo of
        VideoReady dl \<Rightarrow>
          \<comment> \<open>a rejected download is caught by the inner \<^verbatim>\<open>try\<close>, logged, and execution goes on\<close>
          (case loadQueueState sys of
             None \<Rightarrow> (WDone, sys)
           | Some state \<Rightarrow>
               (WSuccWrite (num_or0 (successCount state) + 1)
                           (max 0 (num_or0 (pendingTasks state) - 1)), sys))
      | GenerationFailed \<Rightarrow>
          (case loadQueueState sys of
             None \<Rightarrow> (WDone, sys)
           | Some state \<Rightarrow>
               (WFailWrite (max 0 (num_or0 (pendingTasks state) - 1))
                           (num_or0 (failCount state) + 1), sys)))"
| "watch_step wo (WSuccWrite newSuccessCount newPendingTasks) sys =
     (WVerify newSuccessCount,
      updateQueueState (no_fields\<lparr>successCount := Some newSuccessCount,
                                  pendingTasks := Some newPendingTasks\<rparr>) sys)"
| "watch_step wo (WVerify newSuccessCount) sys =
     (case loadQueueState sys of
        None \<Rightarrow> (WDone, sys)
      | Some verifyState \<Rightarrow>
          if num_or0 (successCount verifyState) \<noteq> newSuccessCount
          then (WRetryWrite newSuccessCount, sys) else (WDone, sys))"
| "watch_step wo (WRetryWrite newSuccessCount) sys =
     (WDone, updateQueueState (no_fields\<lparr>successCount := Some newSuccessCount\<rparr>) sys)"
| "watch_step wo (WFailWrite newPendingTasks newFailCount) sys =
     (WDone, updateQueueState (no_fields\<lparr>pendingTasks := Some newPendingTasks,
                                         failCount := Some newFailCount\<rparr>) sys)"
| "watch_step wo WDone sys = (WDone, sys)"

subsection \<open>The message handlers and the start-up hook\<close>

definition handlePauseQueue :: "system \<Rightarrow> system" where
  "handlePauseQueue sys =
     updateQueueState (no_fields\<lparr>running := Some False, paused := Some True\<rparr>)
       (sys\<lparr>queueRunning := False\<rparr>)"

definition handleClearQueue :: "system \<Rightarrow> system" where
  "handleClearQueue sys =
     sys\<lparr>queueRunning := False, currentQueueId := None, currentTaskPointer := 0,
         store := None, storeMeta := None\<rparr>"

text \<open>
  \<^verbatim>\<open>handleStartQueue(metadata)\<close>, run from its first statement to its last with nothing else
  scheduled in its sleeps. \<open>t1\<close> and \<open>t2\<close> are its two readings of \<^verbatim>\<open>Date.now()\<close>;
  \<open>modeOk\<close> tells whether \<^verbatim>\<open>ensureCorrectMode\<close> returns (it throws when the mode option is
  not found, and \<^verbatim>\<open>processQueue\<close> is then not called).
\<close>

definition handleStartQueue :: "task_metadata \<Rightarrow> nat \<Rightarrow> nat \<Rightarrow> bool \<Rightarrow> system \<Rightarrow> system" where
  "handleStartQueue md t1 t2 modeOk sys =
     (let reset = no_fields\<lparr>running := Some False, paused := Some False,
                            pendingTasks := Some 0\<rparr>;
          \<comment> \<open>steps 1 and 2\<close>
          s2 = updateQueueState reset (sys\<lparr>queueRunning := False\<rparr>);
          \<comment> \<open>steps 3 and 4\<close>
          s4 = (case loadQueueState s2 of
                  None \<Rightarrow> s2
                | Some currentState \<Rightarrow>
                    if truthy (running currentState)
                    then updateQueueState
                           (reset\<lparr>currentIndex := Some 0, successCount := Some 0,
                                  failCount := Some 0\<rparr>) s2
                    else s2);
          \<comment> \<open>step 5\<close>
          s5 = (case loadQueueState s4 of
                  None \<Rightarrow> s4
                | Some finalState \<Rightarrow>
                    if truthy (running finalState) \<and> \<not> truthy (paused finalState)
                    then updateQueueState reset s4 else s4);
          \<comment> \<open>steps 6 and 7\<close>
          s7 = s5\<lparr>queueRunning := False, currentQueueId := Some t1, currentTaskPointer := 0\<rparr>;
          \<comment> \<open>step 8\<close>
          newQueueState =
            \<lparr>totalTasks = Some (md_totalTasks md), currentIndex = Some 0,
             running = Some True, paused = Some False, successCount = Some 0,
             failCount = Some 0, pendingTasks = Some 0, flowMode = Some (md_flowMode md),
             cropMode = Some (md_cropMode md), createdAt = Some t2, queueId = None\<rparr>;
          s8 = updateQueueState newQueueState
                 (s7\<lparr>queueRunning := True, metadata := Some md\<rparr>)
      in if modeOk then s8\<lparr>loops := loops s8 @ [LTop]\<rparr> else s8)"

text \<open>
  What \<^verbatim>\<open>startQueue\<close> of the popup stores (\<^verbatim>\<open>saveState(queueState, metadata)\<close>) before it
  sends \<^verbatim>\<open>FLOW_BATCH_START\<close>; its \<^verbatim>\<open>queueId\<close> is \<^verbatim>\<open>Date.now().toString()\<close>.
\<close>

definition popup_saveState :: "task_metadata \<Rightarrow> nat \<Rightarrow> nat \<Rightarrow> system \<Rightarrow> system" where
  "popup_saveState md tq tc sys =
     sys\<lparr>store := Some
           \<lparr>totalTasks = Some (md_totalTasks md), currentIndex = Some 0,
            running = Some True, paused = Some False, successCount = Some 0,
            failCount = Some 0, pendingTasks = Some 0, flowMode = Some (md_flowMode md),
            cropMode = Some (md_cropMode md), createdAt = Some tc,
            queueId = Some (decimal tq)\<rparr>,
         storeMeta := Some md\<rparr>"

text \<open>
  A page reload: storage survives; the new content script starts from its constructor's
  values and no activation of the old one is left.
\<close>

definition reload :: "system \<Rightarrow> system" where
  "reload sys =
     \<lparr>store = store sys, storeMeta = storeMeta sys, queueRunning = False,
      currentTaskPointer = 0, currentQueueId = None, metadata = None,
      loops = [], watches = []\<rparr>"

text \<open>
  \<^verbatim>\<open>initializeAutoResume\<close>. A throw of \<^verbatim>\<open>ensureCorrectMode\<close> is caught and ignored there.
  \<^verbatim>\<open>!state.totalTasks\<close> holds for a missing count and for 0.
\<close>

definition initializeAutoResume :: "system \<Rightarrow> system" where
  "initializeAutoResume sys =
     (case loadQueueState sys of
        None \<Rightarrow> sys
      | Some state \<Rightarrow>
          if num_or0 (totalTasks state) = 0 then sys
          else case storeMeta sys of
            None \<Rightarrow> sys
          | Some md \<Rightarrow>
              if md_promptList md = None then sys
              else if truthy (running state) \<and> \<not> truthy (paused state) then
                (if js_lt (currentIndex state) (totalTasks state)
                    \<or> num_or0 (pendingTasks state) > 0
                 then sys\<lparr>metadata := Some md, queueRunning := True,
                          currentTaskPointer := num_or0 (currentIndex state),
                          loops := loops sys @ [LTop]\<rparr>
                 else (updateQueueState
                         (no_fields\<lparr>running := Some False, paused := Some False,
                                    pendingTasks := Some 0\<rparr>) sys)
                      \<lparr>queueRunning := False\<rparr>)
              else sys\<lparr>queueRunning := False, currentTaskPointer := 0\<rparr>)"

subsection \<open>Schedules\<close>

text \<open>
  One event is one uninterrupted piece of one activation, or one whole handler. A schedule
  is the order in which the single thread of the page runs them.
\<close>

datatype event =
    ELoop nat exec_outcome      \<comment> \<open>activation \<open>k\<close> of \<^verbatim>\<open>processQueue\<close> runs to its next storage access\<close>
  | EWatch nat watch_outcome    \<comment> \<open>likewise for activation \<open>k\<close> of \<^verbatim>\<open>waitForTaskCompletion\<close>\<close>
  | EPause
  | EClear
  | EStart task_metadata nat nat bool

fun exec :: "event \<Rightarrow> system \<Rightarrow> system" where
  "exec (ELoop k oc) sys =
     (if k < length (loops sys)
      then (case loop_step oc (loops sys ! k) sys of
              (pc, sys1) \<Rightarrow> sys1\<lparr>loops := (loops sys1)[k := pc]\<rparr>)
      else sys)"
| "exec (EWatch k wo) sys =
     (if k < length (watches sys)
      then (case watch_step wo (watches sys ! k) sys of
              (pc, sys1) \<Rightarrow> sys1\<lparr>watches := (watches sys1)[k := pc]\<rparr>)
      else sys)"
| "exec EPause sys = handlePauseQueue sys"
| "exec EClear sys = handleClearQueue sys"
| "exec (EStart md t1 t2 modeOk) sys = handleStartQueue md t1 t2 modeOk sys"

fun run :: "event list \<Rightarrow> system \<Rightarrow> system" where
  "run [] sys = sys"
| "run (e # es) sys = run es (exec e sys)"

text \<open>The content script right after its constructor, on empty storage.\<close>

definition initial :: system where
  "initial = \<lparr>store = None, storeMeta = None, queueRunning = False, currentTaskPointer = 0,
     currentQueueId = None, metadata = None, loops = [], watches = []\<rparr>"

section \<open>updateQueueState, one await at a time\<close>

text \<open>
  The calls of \<^verbatim>\<open>updateQueueState\<close> that are under way, each numbered by its position in
  the list of calls. A call first tests \<^verbatim>\<open>this._updatingState\<close>; if it is set the call
  awaits that promise and, once it has settled, goes on without testing again. It then
  stores its own promise in \<^verbatim>\<open>this._updatingState\<close> and awaits \<^verbatim>\<open>loadQueueState\<close>; with the
  state read it builds \<^verbatim>\<open>newState\<close> and awaits \<^verbatim>\<open>chrome.storage.local.set\<close>; when that has
  stored, its \<^verbatim>\<open>finally\<close> sets \<^verbatim>\<open>this._updatingState\<close> to \<^verbatim>\<open>null\<close> and its promise settles.
\<close>

datatype update_pc =
    UCall queue_state           \<comment> \<open>\<^verbatim>\<open>updateQueueState(updates)\<close> is being called\<close>
  | UWaiting nat queue_state    \<comment> \<open>in \<^verbatim>\<open>await this._updatingState\<close>, on the promise of that call\<close>
  | UReading queue_state        \<comment> \<open>own promise stored, in \<^verbatim>\<open>await this.loadQueueState()\<close>\<close>
  | UWriting queue_state        \<comment> \<open>\<^verbatim>\<open>newState\<close> built, in \<^verbatim>\<open>await chrome.storage.local.set\<close>\<close>
  | UReturned

record update_env =
  u_store :: "queue_state option"     \<comment> \<open>key \<^verbatim>\<open>flowBatchQueueState\<close>\<close>
  u_updating :: "nat option"          \<comment> \<open>\<^verbatim>\<open>this._updatingState\<close>: the call whose promise it holds\<close>
  u_settled :: "nat list"             \<comment> \<open>the calls whose promise has settled\<close>

definition enter_update :: "nat \<Rightarrow> queue_state \<Rightarrow> update_env \<Rightarrow> update_pc \<times> update_env" where
  "enter_update me updates env = (UReading updates, env\<lparr>u_updating := Some me\<rparr>)"

fun update_step :: "nat \<Rightarrow> update_pc \<Rightarrow> update_env \<Rightarrow> update_pc \<times> update_env" where
  "update_step me (UCall updates) env =
     (case u_updating env of
        Some j \<Rightarrow> (UWaiting j updates, env)
      | None \<Rightarrow> enter_update me updates env)"
| "update_step me (UWaiting j updates) env =
     (if j \<in> set (u_settled env) then enter_update me updates env
      else (UWaiting j updates, env))"
| "update_step me (UReading updates) env =
     (UWriting (merge (case u_store env of None \<Rightarrow> no_fields | Some c \<Rightarrow> c) updates), env)"
| "update_step me (UWriting newState) env =
     (UReturned, env\<lparr>u_store := Some newState, u_updating := None,
                      u_settled := me # u_settled env\<rparr>)"
| "update_step me UReturned env = (UReturned, env)"

text \<open>A schedule names, step by step, the call that runs next.\<close>

fun run_updates ::
  "nat list \<Rightarrow> update_pc list \<times> update_env \<Rightarrow> update_pc list \<times> update_env" where
  "run_updates [] c = c"
| "run_updates (k # ks) (calls, env) =
     run_updates ks
       (if k < length calls
        then (case update_step k (calls ! k) env of (pc, env1) \<Rightarrow> (calls[k := pc], env1))
        else (calls, env))"

text \<open>
  What a call holds: its update object satisfies \<open>Q\<close>, or the state it has built for
  storing satisfies \<open>P\<close>.
\<close>

fun call_ok :: "(queue_state \<Rightarrow> bool) \<Rightarrow> (queue_state \<Rightarrow> bool) \<Rightarrow> update_pc \<Rightarrow> bool" where
  "call_ok P Q (UCall u) = Q u"
| "call_ok P Q (UWaiting j u) = Q u"
| "call_ok P Q (UReading u) = Q u"
| "call_ok P Q (UWriting st) = P st"
| "call_ok P Q UReturned = True"

section \<open>Observations, runs of one loop, and scenarios\<close>

text \<open>What is stored: the index, the task count, and the pending count as the code reads it.\<close>

definition stored_index :: "system \<Rightarrow> int option" where
  "stored_index sys = (case store sys of None \<Rightarrow> None | Some s \<Rightarrow> currentIndex s)"

definition stored_total :: "system \<Rightarrow> int option" where
  "stored_total sys = (case store sys of None \<Rightarrow> None | Some s \<Rightarrow> totalTasks s)"

definition stored_pending :: "system \<Rightarrow> int" where
  "stored_pending sys = (case store sys of None \<Rightarrow> 0 | Some s \<Rightarrow> num_or0 (pendingTasks s))"

definition active_loops :: "system \<Rightarrow> nat" where
  "active_loops sys = length (filter (\<lambda>pc. pc \<noteq> LExit) (loops sys))"

text \<open>
  The events of one run: steps of the loop and of the watches, and a pause. A clear or a
  further start ends the run.
\<close>

fun single_run_event :: "event \<Rightarrow> bool" where
  "single_run_event (ELoop k oc) = True"
| "single_run_event (EWatch k wo) = True"
| "single_run_event EPause = True"
| "single_run_event EClear = False"
| "single_run_event (EStart md t1 t2 modeOk) = False"

fun watch_event :: "event \<Rightarrow> bool" where
  "watch_event (EWatch k wo) = True"
| "watch_event e = False"

text \<open>A watch that has not reached its terminal outcome, or has finished.\<close>

fun idle_watch :: "watch_pc \<Rightarrow> bool" where
  "idle_watch (WWait idx) = True"
| "idle_watch WDone = True"
| "idle_watch w = False"

text \<open>
  A run that has just been started: one activation of \<^verbatim>\<open>processQueue\<close>, at its loop head,
  on a stored state with index 0, nothing pending and a task count that is not negative.
\<close>

definition fresh_run :: "system \<Rightarrow> bool" where
  "fresh_run sys \<longleftrightarrow>
     loops sys = [LTop] \<and> list_all idle_watch (watches sys)
     \<and> (case store sys of
          None \<Rightarrow> False
        | Some s \<Rightarrow> currentIndex s = Some 0 \<and> pendingTasks s = Some 0
                    \<and> (case totalTasks s of None \<Rightarrow> False | Some t \<Rightarrow> 0 \<le> t))"

subsection \<open>Invariants of one run\<close>

text \<open>
  What each control point of the loop knows about the stored index \<open>i\<close> and the task count
  \<open>t\<close>: a task is in work only below \<open>t\<close>, and a state prepared for writing carries \<open>i + 1\<close>.
\<close>

fun pc_index_ok :: "int \<Rightarrow> int \<Rightarrow> loop_pc \<Rightarrow> bool" where
  "pc_index_ok i t (LExec idx) = (idx = i \<and> i < t)"
| "pc_index_ok i t (LIncWrite idx st) = (idx = i \<and> i < t)"
| "pc_index_ok i t (LAdvLoad idx) = (idx = i \<and> i < t)"
| "pc_index_ok i t (LAdvWrite st) =
     (currentIndex st = Some (i + 1) \<and> totalTasks st = Some t \<and> i < t)"
| "pc_index_ok i t (LTaskFailWrite st) = (i < t)"
| "pc_index_ok i t LCatchLoad = (i < t)"
| "pc_index_ok i t (LCatchWrite st) =
     (currentIndex st = Some (i + 1) \<and> totalTasks st = Some t \<and> i < t)"
| "pc_index_ok i t pc = True"

definition index_inv :: "int \<Rightarrow> int \<Rightarrow> loop_pc \<Rightarrow> system \<Rightarrow> bool" where
  "index_inv t i pc sys \<longleftrightarrow>
     stored_total sys = Some t \<and> stored_index sys = Some i \<and> 0 \<le> i \<and> i \<le> t
     \<and> pc_index_ok i t pc"

definition run_index_inv :: "int \<Rightarrow> int \<Rightarrow> system \<Rightarrow> bool" where
  "run_index_inv t i sys \<longleftrightarrow> (case loops sys of [pc] \<Rightarrow> index_inv t i pc sys | _ \<Rightarrow> False)"

text \<open>
  The same for the pending count: a state read earlier and about to be written back holds a
  count within the limit, and a count a watch is about to write lies below the limit.
\<close>

definition snapshot_ok :: "queue_state \<Rightarrow> bool" where
  "snapshot_ok st \<longleftrightarrow>
     (case pendingTasks st of None \<Rightarrow> True | Some q \<Rightarrow> 0 \<le> q \<and> q \<le> QUEUE_LIMIT)"

fun pc_pending_ok :: "int \<Rightarrow> loop_pc \<Rightarrow> bool" where
  "pc_pending_ok p (LExec idx) = (p < QUEUE_LIMIT)"
| "pc_pending_ok p (LIncWrite idx st) =
     (0 \<le> num_or0 (pendingTasks st) \<and> num_or0 (pendingTasks st) < QUEUE_LIMIT)"
| "pc_pending_ok p (LAdvWrite st) = snapshot_ok st"
| "pc_pending_ok p (LTaskFailWrite st) = (num_or0 (pendingTasks st) \<le> QUEUE_LIMIT)"
| "pc_pending_ok p (LCatchWrite st) = snapshot_ok st"
| "pc_pending_ok p pc = True"

fun watch_pending_ok :: "watch_pc \<Rightarrow> bool" where
  "watch_pending_ok (WSuccWrite n p) = (0 \<le> p \<and> p < QUEUE_LIMIT)"
| "watch_pending_ok (WFailWrite p f) = (0 \<le> p \<and> p < QUEUE_LIMIT)"
| "watch_pending_ok w = True"

definition pending_inv :: "loop_pc \<Rightarrow> system \<Rightarrow> bool" where
  "pending_inv pc sys \<longleftrightarrow>
     0 \<le> stored_pending sys \<and> stored_pending sys \<le> QUEUE_LIMIT
     \<and> pc_pending_ok (stored_pending sys) pc
     \<and> list_all watch_pending_ok (watches sys)"

definition run_pending_inv :: "system \<Rightarrow> bool" where
  "run_pending_inv sys \<longleftrightarrow> (case loops sys of [pc] \<Rightarrow> pending_inv pc sys | _ \<Rightarrow> False)"

text \<open>
  Counts held for writing are not negative: the count a submission read, the count in a
  state prepared for writing back, and the count a watch computed.
\<close>

fun loop_count_ok :: "loop_pc \<Rightarrow> bool" where
  "loop_count_ok (LIncWrite idx st) = (0 \<le> num_or0 (pendingTasks st))"
| "loop_count_ok (LAdvWrite st) = (0 \<le> num_or0 (pendingTasks st))"
| "loop_count_ok (LCatchWrite st) = (0 \<le> num_or0 (pendingTasks st))"
| "loop_count_ok pc = True"

fun watch_count_ok :: "watch_pc \<Rightarrow> bool" where
  "watch_count_ok (WSuccWrite n p) = (0 \<le> p)"
| "watch_count_ok (WFailWrite p f) = (0 \<le> p)"
| "watch_count_ok w = True"

definition counts_nonneg :: "system \<Rightarrow> bool" where
  "counts_nonneg sys \<longleftrightarrow>
     0 \<le> stored_pending sys \<and> list_all loop_count_ok (loops sys)
     \<and> list_all watch_count_ok (watches sys)"

text \<open>
  Nothing is in work below the index \<open>i0\<close>: the stored index, the task the loop works on
  and the index in a state prepared for writing are all at least \<open>i0\<close>.
\<close>

fun pc_from :: "int \<Rightarrow> loop_pc \<Rightarrow> bool" where
  "pc_from i0 (LExec idx) = (i0 \<le> idx)"
| "pc_from i0 (LIncWrite idx st) = (i0 \<le> idx)"
| "pc_from i0 (LAdvLoad idx) = (i0 \<le> idx)"
| "pc_from i0 (LAdvWrite st) = (case currentIndex st of None \<Rightarrow> False | Some j \<Rightarrow> i0 \<le> j)"
| "pc_from i0 (LCatchWrite st) = (case currentIndex st of None \<Rightarrow> False | Some j \<Rightarrow> i0 \<le> j)"
| "pc_from i0 pc = True"

definition from_inv :: "int \<Rightarrow> system \<Rightarrow> bool" where
  "from_inv i0 sys \<longleftrightarrow>
     (case stored_index sys of None \<Rightarrow> False | Some j \<Rightarrow> i0 \<le> j)
     \<and> list_all (pc_from i0) (loops sys)"

text \<open>The task an activation of the loop is submitting, if it is inside \<^verbatim>\<open>processTask\<close>.\<close>

fun task_in_work :: "loop_pc \<Rightarrow> int option" where
  "task_in_work (LExec idx) = Some idx"
| "task_in_work (LIncWrite idx st) = Some idx"
| "task_in_work (LAdvLoad idx) = Some idx"
| "task_in_work pc = None"

subsection \<open>Scenarios\<close>

text \<open>A run of three tasks, started from the popup on a freshly loaded page.\<close>

definition three_tasks :: task_metadata where
  "three_tasks =
     \<lparr>md_totalTasks = 3, md_promptList = Some [js ''a'', js ''b'', js ''c''],
      md_filenameList = [js ''a.png'', js ''b.png'', js ''c.png''],
      md_flowMode = js ''m'', md_cropMode = js ''c''\<rparr>"

definition started :: system where
  "started =
     handleStartQueue three_tasks 1000 1001 True (popup_saveState three_tasks 900 900 initial)"

text \<open>One full lap of the loop on a successful submission takes five steps.\<close>

definition submit_one :: "nat \<Rightarrow> event list" where
  "submit_one k = replicate 5 (ELoop k SubmitOk)"

text \<open>Two tasks submitted, both watches waiting.\<close>

definition two_submitted :: system where
  "two_submitted = run (submit_one 0 @ submit_one 0) started"

text \<open>
  Both watches see their video, each reads the state, then each writes and verifies.
\<close>

definition both_watches_finish :: "event list" where
  "both_watches_finish =
     [EWatch 0 (VideoReady DownloadOk), EWatch 1 (VideoReady DownloadOk),
      EWatch 0 (VideoReady DownloadOk), EWatch 1 (VideoReady DownloadOk),
      EWatch 0 (VideoReady DownloadOk), EWatch 1 (VideoReady DownloadOk)]"

text \<open>
  Every submission of the run fails inside the \<^verbatim>\<open>try\<close> of \<^verbatim>\<open>processTask\<close>: five steps of
  the loop for each task, then the two steps of completion.
\<close>

definition all_fail :: "event list" where
  "all_fail = replicate 17 (ELoop 0 ExecFail)"

text \<open>
  A second start while the first loop is inside \<^verbatim>\<open>processTask(0)\<close>; then the second loop
  enters \<^verbatim>\<open>processTask(0)\<close> as well, and the first one finishes its lap and goes on.
\<close>

definition double_start :: "event list" where
  "double_start =
     [ELoop 0 SubmitOk, EStart three_tasks 5000 5001 True, ELoop 1 SubmitOk]
     @ replicate 5 (ELoop 0 SubmitOk)"

text \<open>
  One task submitted, then the queue is cleared and the first loop leaves; a second run is
  started and submits its first task, while the watch of the first run still waits.
\<close>

definition second_run :: system where
  "second_run =
     run (submit_one 0 @ [EClear, ELoop 0 SubmitOk, EStart three_tasks 5000 5001 True]
          @ submit_one 1) started"

definition stale_watch_finishes :: "event list" where
  "stale_watch_finishes = [EWatch 0 (VideoReady DownloadOk), EWatch 0 (VideoReady DownloadOk)]"

text \<open>
  Storage as an interrupted run leaves it (running, index 3 of 10, two pending), on a page
  that has just been reloaded; the stored metadata is a parameter.
\<close>

definition ten_tasks :: task_metadata where
  "ten_tasks =
     \<lparr>md_totalTasks = 10, md_promptList = Some (replicate 10 (js ''p'')),
      md_filenameList = replicate 10 (js ''f.png''),
      md_flowMode = js ''m'', md_cropMode = js ''c''\<rparr>"

definition interrupted_state :: queue_state where
  "interrupted_state =
     \<lparr>totalTasks = Some 10, currentIndex = Some 3, running = Some True,
      paused = Some False, successCount = Some 1, failCount = Some 0,
      pendingTasks = Some 2, flowMode = Some (js ''m''), cropMode = Some (js ''c''),
      createdAt = Some 900, queueId = Some (decimal 900)\<rparr>"

definition interrupted :: "task_metadata option \<Rightarrow> system" where
  "interrupted m = reload (initial\<lparr>store := Some interrupted_state, storeMeta := m\<rparr>)"

text \<open>
  The queue is cleared while the loop is inside \<^verbatim>\<open>processTask(0)\<close>; the loop then finishes
  its lap.
\<close>

definition clear_during_submission :: "event list" where
  "clear_during_submission = [ELoop 0 SubmitOk, EClear] @ replicate 4 (ELoop 0 SubmitOk)"

text \<open>
  Ten tasks; a second start while the first loop is inside \<^verbatim>\<open>processTask(0)\<close>. The second
  loop submits three tasks and enters \<^verbatim>\<open>processTask(3)\<close>; then the first loop's click
  succeeds and it stores its count, and the second loop's click succeeds and it stores its own.
\<close>

definition started_ten :: system where
  "started_ten =
     handleStartQueue ten_tasks 1000 1001 True (popup_saveState ten_tasks 900 900 initial)"

definition two_loops_submit :: "event list" where
  "two_loops_submit =
     [ELoop 0 SubmitOk, EStart ten_tasks 5000 5001 True]
     @ submit_one 1 @ submit_one 1 @ submit_one 1
     @ [ELoop 1 SubmitOk, ELoop 0 SubmitOk, ELoop 0 SubmitOk, ELoop 1 SubmitOk, ELoop 1 SubmitOk]"

text \<open>
  Three tasks submitted; the loop has not yet advanced the index for the third. The watch
  of task 0 sees its video and reads the state, the loop reads it for \<^verbatim>\<open>updatedState\<close>, the
  watch of task 1 sees its video and reads it: three calls of \<^verbatim>\<open>updateQueueState\<close> are due.
\<close>

definition three_submitted_state :: queue_state where
  "three_submitted_state =
     \<lparr>totalTasks = Some 3, currentIndex = Some 2, running = Some True,
      paused = Some False, successCount = Some 0, failCount = Some 0,
      pendingTasks = Some 3, flowMode = Some (js ''m''), cropMode = Some (js ''c''),
      createdAt = Some 1001, queueId = Some (decimal 900)\<rparr>"

definition three_calls_due :: system where
  "three_calls_due =
     run (submit_one 0 @ submit_one 0 @ replicate 3 (ELoop 0 SubmitOk)
          @ [EWatch 0 (VideoReady DownloadOk), ELoop 0 SubmitOk,
             EWatch 1 (VideoReady DownloadOk)]) started"

text \<open>
  These three calls, in the order in which they are made: the first watch's, the loop's,
  the second watch's.
\<close>

definition due_calls :: "update_pc list" where
  "due_calls =
     [UCall (no_fields\<lparr>successCount := Some 1, pendingTasks := Some 2\<rparr>),
      UCall (three_submitted_state\<lparr>currentIndex := Some 3\<rparr>),
      UCall (no_fields\<lparr>successCount := Some 1, pendingTasks := Some 2\<rparr>)]"

definition due_env :: update_env where
  "due_env = \<lparr>u_store = Some three_submitted_state, u_updating = None, u_settled = []\<rparr>"

text \<open>
  The first call enters; the other two are made while it is under way and wait for it. It
  reads, stores and settles. Both waiting calls go on, both read, and the loop's call
  stores; the second watch's call stores last.
\<close>

definition overlap_until_loop_stored :: "nat list" where
  "overlap_until_loop_stored = [0, 1, 2, 0, 0, 1, 2, 1, 2, 1]"

definition overlap_complete :: "nat list" where
  "overlap_complete = overlap_until_loop_stored @ [2]"

text \<open>Nine steps of the loop: one full lap, and the second up to the prepared write.\<close>

definition nine_steps :: "event list" where
  "nine_steps = replicate 9 (ELoop 0 SubmitOk)"

text \<open>Three failed submissions, the loop back at its head.\<close>

definition three_failed :: "event list" where
  "three_failed = replicate 15 (ELoop 0 ExecFail)"

text \<open>The state stored once two tasks are submitted.\<close>

definition two_submitted_state :: queue_state where
  "two_submitted_state =
     \<lparr>totalTasks = Some 3, currentIndex = Some 2, running = Some True,
      paused = Some False, successCount = Some 0, failCount = Some 0,
      pendingTasks = Some 2, flowMode = Some (js ''m''), cropMode = Some (js ''c''),
      createdAt = Some 1001, queueId = Some (decimal 900)\<rparr>"

text \<open>
  Three tasks, every submission fails. A second start while the first loop is inside
  \<^verbatim>\<open>processTask(0)\<close>; the second loop works through its three tasks; then the first loop's
  task fails too and its \<^verbatim>\<open>catch\<close> advances the index once more.
\<close>

definition overshoot :: "event list" where
  "overshoot =
     [ELoop 0 ExecFail, EStart three_tasks 5000 5001 True]
     @ replicate 15 (ELoop 1 ExecFail) @ replicate 4 (ELoop 0 ExecFail)"

text \<open>Three failed submissions, then a pause before the loop head runs again.\<close>

definition paused_at_end :: "event list" where
  "paused_at_end = three_failed @ [EPause]"

text \<open>All three tasks submitted, none finished.\<close>

definition all_submitted :: system where
  "all_submitted = run (submit_one 0 @ submit_one 0 @ submit_one 0) started"

text \<open>
  One task submitted. The loop enters \<^verbatim>\<open>processTask(1)\<close>; the watch of the first task
  sees its video and reads the state; the loop's click succeeds and it reads the state; the
  watch stores its counts; then the loop stores its count.
\<close>

definition one_submitted :: system where
  "one_submitted = run (submit_one 0) started"

definition submission_races_completion :: "event list" where
  "submission_races_completion =
     [ELoop 0 SubmitOk, EWatch 0 (VideoReady DownloadOk), ELoop 0 SubmitOk,
      EWatch 0 (VideoReady DownloadOk), ELoop 0 SubmitOk]"

text \<open>A resumed loop submits one task and enters the next.\<close>

definition resumed_steps :: "event list" where
  "resumed_steps = submit_one 0 @ [ELoop 0 SubmitOk]"

section \<open>File names: proofs\<close>

declare split_ws.simps [simp del] decimal.simps [simp del]

lemma default_name_clean: "list_all (\<lambda>c. \<not> is_forbidden c) (js ''flow_video.mp4'')"
  by (simp add: js_def is_forbidden_def)

lemma default_name_not_blank: "trim (js ''flow_video.mp4'') \<noteq> []"
  by (simp add: js_def trim_def is_space_def)

lemma default_name_fixed: "replace_forbidden (js ''flow_video.mp4'') = js ''flow_video.mp4''"
  by (simp add: replace_forbidden_def js_def is_forbidden_def)

lemma no_prompt_clean: "list_all (\<lambda>c. \<not> is_forbidden c) (js ''no_prompt'')"
  by (simp add: js_def is_forbidden_def)

lemma underscore_allowed: "\<not> is_forbidden 95"
  by (simp add: is_forbidden_def)

lemma replace_forbidden_clean: "list_all (\<lambda>c. \<not> is_forbidden c) (replace_forbidden s)"
  by (induction s) (simp_all add: replace_forbidden_def underscore_allowed)

lemma sanitizeFilename_clean: "list_all (\<lambda>c. \<not> is_forbidden c) (sanitizeFilename name)"
  by (simp add: sanitizeFilename_def Let_def default_name_clean replace_forbidden_clean)

lemma sanitizeFilename_not_blank: "trim (sanitizeFilename name) \<noteq> []"
  by (simp add: sanitizeFilename_def Let_def default_name_not_blank)

lemma sanitizeFilename_not_empty: "sanitizeFilename name \<noteq> []"
proof
  assume "sanitizeFilename name = []"
  then have "trim (sanitizeFilename name) = []" by (simp add: trim_def)
  then show False using sanitizeFilename_not_blank by blast
qed

lemma generatePromptSnippet_clean:
  "list_all (\<lambda>c. \<not> is_forbidden c) (generatePromptSnippet prompt)"
  by (cases prompt)
     (simp_all add: generatePromptSnippet_def Let_def no_prompt_clean replace_forbidden_clean)




lemma forbidden_chars:
  "is_forbidden c \<longleftrightarrow> c \<in> set (js (''/:*?<>|'' @ [CHR 0x22, CHR 0x5C]))"
  by (auto simp: is_forbidden_def js_def)

lemma space_not_forbidden: "is_space c \<Longrightarrow> \<not> is_forbidden c"
  by (auto simp: is_space_def is_forbidden_def)

lemma underscore_not_space: "\<not> is_space 95"
  by (simp add: is_space_def)

lemma trim_Nil_iff: "trim s = [] \<longleftrightarrow> list_all is_space s"
proof
  assume t: "trim s = []"
  then have a: "\<forall>x\<in>set (dropWhile is_space s). is_space x" by (simp add: trim_def)
  have "dropWhile is_space s = []"
  proof (rule ccontr)
    assume ne: "dropWhile is_space s \<noteq> []"
    then have "\<not> is_space (hd (dropWhile is_space s))" by (rule hd_dropWhile)
    moreover have "hd (dropWhile is_space s) \<in> set (dropWhile is_space s)"
      using ne by simp
    ultimately show False using a by blast
  qed
  then show "list_all is_space s" by (simp add: list_all_iff)
next
  assume "list_all is_space s"
  then have "\<forall>x\<in>set s. is_space x" by (simp add: list_all_iff)
  then show "trim s = []" by (auto simp: trim_def dest: set_dropWhileD)
qed

lemma replace_forbidden_blank:
  "list_all is_space (replace_forbidden s) \<longleftrightarrow> list_all is_space s"
  by (induction s)
     (auto simp: replace_forbidden_def underscore_not_space space_not_forbidden)

lemma replace_forbidden_id:
  "list_all (\<lambda>c. \<not> is_forbidden c) s \<Longrightarrow> replace_forbidden s = s"
  by (induction s) (simp_all add: replace_forbidden_def)

lemma sanitizeFilename_Some:
  "sanitizeFilename (Some s) =
     (if list_all is_space s then js ''flow_video.mp4''
      else map (\<lambda>c. if is_forbidden c then 95 else c) s)"
proof (cases "s = []")
  case True
  then show ?thesis
    by (simp add: sanitizeFilename_def str_or_def Let_def default_name_fixed)
next
  case False
  then show ?thesis
    by (simp add: sanitizeFilename_def str_or_def Let_def trim_Nil_iff
        replace_forbidden_blank) (simp add: replace_forbidden_def)
qed

lemma sanitizeFilename_None: "sanitizeFilename None = js ''flow_video.mp4''"
  by (simp add: sanitizeFilename_def str_or_def Let_def default_name_fixed)

lemma default_name_kept: "sanitizeFilename (Some (js ''flow_video.mp4'')) = js ''flow_video.mp4''"
  by (simp add: sanitizeFilename_def str_or_def Let_def default_name_fixed
      default_name_not_blank)

lemma download_safeFilename_Some:
  "download_safeFilename (Some s) = sanitizeFilename (Some s)"
proof (cases "s = []")
  case True
  then show ?thesis
    using sanitizeFilename_Some [of "[]"]
    by (simp add: download_safeFilename_def str_or_def default_name_kept)
next
  case False
  then show ?thesis by (simp add: download_safeFilename_def str_or_def)
qed

lemma download_safeFilename_None: "download_safeFilename None = js ''flow_video.mp4''"
  by (simp add: download_safeFilename_def str_or_def default_name_kept)

subsection \<open>Splitting a prompt into words\<close>

lemma split_ws_word: "list_all (\<lambda>c. \<not> is_space c) w \<Longrightarrow> split_ws w = [w]"
  by (subst split_ws.simps) (simp add: Let_def list_all_iff)

lemma spaced_hd:
  "is_word w \<Longrightarrow> spaced w rest \<noteq> [] \<and> hd (spaced w rest) = hd w"
  by (cases rest) (auto simp: is_word_def)

lemma spaced_last:
  "is_word w \<Longrightarrow> list_all (\<lambda>(sep, w'). is_gap sep \<and> is_word w') rest
     \<Longrightarrow> \<not> is_space (last (spaced w rest))"
proof (induction rest arbitrary: w)
  case Nil
  then show ?case by (auto simp: is_word_def list_all_iff)
next
  case (Cons a rest)
  obtain sep w' where a: "a = (sep, w')" by (cases a)
  from Cons.prems a have w': "is_word w'"
    and r: "list_all (\<lambda>(sep, w'). is_gap sep \<and> is_word w') rest" by simp_all
  have "spaced w' rest \<noteq> []" using spaced_hd [OF w'] by simp
  then show ?case using Cons.IH [OF w' r] a by simp
qed

lemma word_hd: "is_word w \<Longrightarrow> \<not> is_space (hd w)"
  by (cases w) (auto simp: is_word_def)

lemma dropWhile_gap:
  assumes "list_all is_space sep" and "x \<noteq> []" and "\<not> is_space (hd x)"
  shows "dropWhile is_space (sep @ x) = x"
proof -
  from assms(2) obtain c cs where x: "x = c # cs" by (cases x) auto
  then show ?thesis using assms by (simp add: list_all_iff)
qed

lemma split_ws_spaced:
  "is_word w \<Longrightarrow> list_all (\<lambda>(sep, w'). is_gap sep \<and> is_word w') rest
     \<Longrightarrow> split_ws (spaced w rest) = w # map snd rest"
proof (induction rest arbitrary: w)
  case Nil
  then show ?case by (simp add: split_ws_word is_word_def)
next
  case (Cons a rest)
  obtain sep w' where a: "a = (sep, w')" by (cases a)
  from Cons.prems a have gap: "is_gap sep" and w': "is_word w'"
    and r: "list_all (\<lambda>(sep, w'). is_gap sep \<and> is_word w') rest" by simp_all
  let ?x = "spaced w' rest"
  have x: "?x \<noteq> []" "\<not> is_space (hd ?x)" using spaced_hd [OF w'] word_hd [OF w'] by simp_all
  from gap obtain c cs where sep: "sep = c # cs" and c: "is_space c"
    by (cases sep) (auto simp: is_gap_def)
  have w: "\<forall>c\<in>set w. \<not> is_space c" using Cons.prems(1) by (simp add: is_word_def list_all_iff)
  have t: "takeWhile (\<lambda>c. \<not> is_space c) (w @ sep @ ?x) = w"
    using w sep c by simp
  have d: "dropWhile (\<lambda>c. \<not> is_space c) (w @ sep @ ?x) = sep @ ?x"
    using w sep c by simp
  have g: "dropWhile is_space (sep @ ?x) = ?x"
    using dropWhile_gap [OF _ x] gap by (simp add: is_gap_def)
  have "split_ws (spaced w (a # rest)) = w # split_ws ?x"
    using a t d g sep by (subst split_ws.simps) (simp add: Let_def)
  then show ?case using Cons.IH [OF w' r] a by simp
qed

lemma trim_core:
  assumes "x \<noteq> []" and "\<not> is_space (hd x)" and "\<not> is_space (last x)"
    and "list_all is_space pre" and "list_all is_space post"
  shows "trim (pre @ x @ post) = x"
proof -
  have a: "dropWhile is_space (pre @ x @ post) = x @ post"
  proof -
    have "x @ post \<noteq> []" "\<not> is_space (hd (x @ post))" using assms(1,2) by simp_all
    from dropWhile_gap [OF assms(4) this] show ?thesis .
  qed
  have b: "dropWhile is_space (rev post @ rev x) = rev x"
  proof -
    have "rev x \<noteq> []" "\<not> is_space (hd (rev x))"
      using assms(1,3) by (simp_all add: hd_rev)
    moreover have "list_all is_space (rev post)" using assms(5) by (simp add: list_all_iff)
    ultimately show ?thesis using dropWhile_gap by blast
  qed
  show ?thesis using a b by (simp add: trim_def)
qed

lemma trim_spaced:
  assumes "is_word w" and "list_all (\<lambda>(sep, w'). is_gap sep \<and> is_word w') rest"
    and "list_all is_space pre" and "list_all is_space post"
  shows "trim (pre @ spaced w rest @ post) = spaced w rest"
  using trim_core [OF _ _ spaced_last [OF assms(1,2)] assms(3,4)]
    spaced_hd [OF assms(1), of rest] word_hd [OF assms(1)] by simp

lemma join_underscore_not_empty: "w \<noteq> [] \<Longrightarrow> join_underscore (w # ws) \<noteq> []"
  by (cases ws) simp_all

lemma snippet_of_blank:
  "list_all is_space p \<Longrightarrow> generatePromptSnippet (Some p) = js ''no_prompt''"
proof -
  assume "list_all is_space p"
  then have "trim p = []" by (simp add: trim_Nil_iff)
  then show ?thesis
    by (simp add: generatePromptSnippet_def Let_def split_ws_word replace_forbidden_def)
qed

lemma snippet_of_trimmed:
  assumes "p \<noteq> []" and "split_ws (trim p) = ws" and "trim p = x"
    and "(if 1 < length ws then join_underscore (take 5 ws) else take 15 x) \<noteq> []"
  shows "generatePromptSnippet (Some p) =
           map (\<lambda>c. if is_forbidden c then 95 else c)
             (if 1 < length ws then join_underscore (take 5 ws) else take 15 x)"
  using assms
  by (auto simp: generatePromptSnippet_def Let_def replace_forbidden_def split: if_splits)

lemma snippet_of_words:
  assumes w: "is_word w" and r: "list_all (\<lambda>(sep, w'). is_gap sep \<and> is_word w') rest"
    and pre: "list_all is_space pre" and post: "list_all is_space post"
  shows "generatePromptSnippet (Some (pre @ spaced w rest @ post)) =
           map (\<lambda>c. if is_forbidden c then 95 else c)
             (if rest = [] then take 15 w else join_underscore (take 5 (w # map snd rest)))"
proof -
  define p where "p = pre @ spaced w rest @ post"
  have ne: "p \<noteq> []" using spaced_hd [OF w, of rest] by (simp add: p_def)
  have t: "trim p = spaced w rest" unfolding p_def by (rule trim_spaced [OF w r pre post])
  have s: "split_ws (trim p) = w # map snd rest" using t split_ws_spaced [OF w r] by simp
  have wne: "w \<noteq> []" using w by (simp add: is_word_def)
  have j: "join_underscore (take 5 (w # map snd rest)) \<noteq> []"
    using join_underscore_not_empty [OF wne] by (simp add: take_Cons')
  have "(if 1 < length (w # map snd rest) then join_underscore (take 5 (w # map snd rest))
         else take 15 (spaced w rest)) \<noteq> []"
    using j wne by (cases rest) simp_all
  from snippet_of_trimmed [OF ne s t this]
  show ?thesis unfolding p_def by (cases rest) simp_all
qed

lemma snippet_not_empty: "generatePromptSnippet prompt \<noteq> []"
  by (cases prompt) (auto simp: generatePromptSnippet_def Let_def js_def)

subsection \<open>The generated name\<close>

lemma decimal_clean: "list_all (\<lambda>c. \<not> is_forbidden c) (decimal n)"
proof (induction n rule: decimal.induct)
  case (1 n)
  have d: "\<not> is_forbidden (48 + k)" if "k < 10" for k
    using that by (auto simp: is_forbidden_def)
  show ?case
  proof (cases "n < 10")
    case True
    then show ?thesis using d by (subst decimal.simps) simp
  next
    case False
    then show ?thesis using 1 d [of "n mod 10"] by (subst decimal.simps) simp
  qed
qed

lemma generated_name_clean:
  "list_all (\<lambda>c. \<not> is_forbidden c) (downloadVideo_filename taskIndex prompt now)"
  by (simp add: downloadVideo_filename_def decimal_clean generatePromptSnippet_clean)
     (simp add: js_def is_forbidden_def)

lemma generated_name_not_blank:
  "\<not> list_all is_space (downloadVideo_filename taskIndex prompt now)"
  by (simp add: downloadVideo_filename_def js_def underscore_not_space)

lemma generated_name_kept:
  "download_safeFilename (Some (downloadVideo_filename taskIndex prompt now))
     = downloadVideo_filename taskIndex prompt now"
  using replace_forbidden_id [OF generated_name_clean, of taskIndex prompt now]
  by (simp add: download_safeFilename_Some sanitizeFilename_Some generated_name_not_blank
      replace_forbidden_def)


text \<open>
  Claim C10. Whatever file name the download message carries (also none, an empty or a
  blank one), the name handed to the browser's download API contains none of the characters
  \<^verbatim>\<open>\ / : * ? " < > |\<close>, is not empty and is not made of white space only.
  \<^verbatim>\<open>sanitizeFilename\<close> gives \<^verbatim>\<open>flow_video.mp4\<close> for a missing, empty or blank name; for any
  other name it gives the name with each of those characters replaced by an underscore
  (code unit 95) and every other code unit kept in place. The name \<^verbatim>\<open>downloadVideo\<close> builds
  for a finished task passes through unchanged. The prompt snippet in that name is
  \<^verbatim>\<open>no_prompt\<close> for a missing, empty or blank prompt; for a prompt of one word it is the
  first 15 code units of the word, for a prompt of several words its first five words joined
  by underscores, whatever white space surrounds and separates them; in both cases each of
  those characters is replaced by an underscore.
\<close>

theorem download_filename_safe:
  "list_all (\<lambda>c. \<not> is_forbidden c) (download_safeFilename filename)
   \<and> download_safeFilename filename \<noteq> []
   \<and> trim (download_safeFilename filename) \<noteq> []
   \<and> (is_forbidden c \<longleftrightarrow> c \<in> set (js (''/:*?<>|'' @ [CHR 0x22, CHR 0x5C])))
   \<and> sanitizeFilename None = js ''flow_video.mp4''
   \<and> download_safeFilename None = js ''flow_video.mp4''
   \<and> sanitizeFilename (Some s) =
        (if list_all is_space s then js ''flow_video.mp4''
         else map (\<lambda>c. if is_forbidden c then 95 else c) s)
   \<and> download_safeFilename (Some s) =
        (if list_all is_space s then js ''flow_video.mp4''
         else map (\<lambda>c. if is_forbidden c then 95 else c) s)
   \<and> download_safeFilename (Some (downloadVideo_filename taskIndex prompt now))
        = downloadVideo_filename taskIndex prompt now
   \<and> list_all (\<lambda>c. \<not> is_forbidden c) (generatePromptSnippet prompt)
   \<and> generatePromptSnippet prompt \<noteq> []
   \<and> generatePromptSnippet None = js ''no_prompt''
   \<and> (list_all is_space p \<longrightarrow> generatePromptSnippet (Some p) = js ''no_prompt'')
   \<and> (is_word w \<and> list_all (\<lambda>(sep, w'). is_gap sep \<and> is_word w') rest
        \<and> list_all is_space pre \<and> list_all is_space post
      \<longrightarrow> generatePromptSnippet (Some (pre @ spaced w rest @ post)) =
            map (\<lambda>c. if is_forbidden c then 95 else c)
              (if rest = [] then take 15 w
               else join_underscore (take 5 (w # map snd rest))))"
proof -
  have safe: "download_safeFilename filename = sanitizeFilename filename"
    by (cases filename)
       (simp_all add: download_safeFilename_None sanitizeFilename_None
          download_safeFilename_Some)
  have a: "list_all (\<lambda>c. \<not> is_forbidden c) (download_safeFilename filename)
      \<and> download_safeFilename filename \<noteq> [] \<and> trim (download_safeFilename filename) \<noteq> []"
    unfolding safe
    by (simp add: sanitizeFilename_clean sanitizeFilename_not_blank sanitizeFilename_not_empty)
  have b: "download_safeFilename (Some s) =
        (if list_all is_space s then js ''flow_video.mp4''
         else map (\<lambda>c. if is_forbidden c then 95 else c) s)"
    by (simp only: download_safeFilename_Some sanitizeFilename_Some)
  have c: "generatePromptSnippet None = js ''no_prompt''"
    by (simp add: generatePromptSnippet_def)
  show ?thesis
    using a b c forbidden_chars [of c] sanitizeFilename_None download_safeFilename_None
      sanitizeFilename_Some [of s] generated_name_kept [of taskIndex prompt now]
      generatePromptSnippet_clean [of prompt] snippet_not_empty [of prompt]
      snippet_of_blank [of p] snippet_of_words [of w rest pre post]
    by blast
qed

theorem download_filename_safe_witness:
  "list_all is_space (js ''  '') \<and> sanitizeFilename (Some (js ''  '')) = js ''flow_video.mp4''
   \<and> list_all is_space [9, 10, 160, 12288]
   \<and> sanitizeFilename (Some [9, 10, 160, 12288]) = js ''flow_video.mp4''
   \<and> \<not> list_all is_space [8203] \<and> sanitizeFilename (Some [8203]) = [8203]
   \<and> generatePromptSnippet (Some (js ''a cat'')) = js ''a_cat''
   \<and> downloadVideo_filename 2 (Some (js ''a cat'')) 1234 = js ''3_a_cat_1234.mp4''
   \<and> download_safeFilename (Some (js ''3_a_cat_1234.mp4'')) = js ''3_a_cat_1234.mp4''
   \<and> \<not> list_all is_space (js ''a/b:c.mp4'')
   \<and> download_safeFilename (Some (js ''a/b:c.mp4'')) = js ''a_b_c.mp4''
   \<and> generatePromptSnippet (Some (js ''   '')) = js ''no_prompt''
   \<and> is_word (js ''sunset:over/the-sea_at_dusk'')
   \<and> generatePromptSnippet (Some (js '' sunset:over/the-sea_at_dusk ''))
       = js ''sunset_over_the''
   \<and> spaced (js ''a'') [(js '' '', js ''cat:''), (js ''  '', js ''on/the''), (js '' '', js ''mat''),
         (js '' '', js ''at''), (js '' '', js ''dusk'')] = js ''a cat:  on/the mat at dusk''
   \<and> generatePromptSnippet (Some (js '' a cat:  on/the mat at dusk ''))
       = js ''a_cat__on_the_mat_at''"
proof -
  let ?rest = "[(js '' '', js ''cat:''), (js ''  '', js ''on/the''), (js '' '', js ''mat''),
         (js '' '', js ''at''), (js '' '', js ''dusk'')]"
  have blank: "list_all is_space (js ''  '')" "list_all is_space (js ''   '')"
    "list_all is_space (js '' '')" "list_all is_space []"
    "\<not> list_all is_space (js ''a/b:c.mp4'')"
    by (simp_all add: js_def is_space_def)
  have words: "is_word (js ''sunset:over/the-sea_at_dusk'')" "is_word (js ''a'')"
    "list_all (\<lambda>(sep, w'). is_gap sep \<and> is_word w') ?rest"
    by (simp_all add: is_word_def is_gap_def js_def is_space_def)
  have sp: "spaced (js ''a'') ?rest = js ''a cat:  on/the mat at dusk''"
    by (simp add: js_def)
  have n1: "sanitizeFilename (Some (js ''  '')) = js ''flow_video.mp4''"
    using download_filename_safe [where s = "js ''  ''"] blank by simp
  have other: "list_all is_space [9, 10, 160, 12288]" "\<not> list_all is_space [8203]"
    by (simp_all add: is_space_def)
  have m1: "sanitizeFilename (Some [9, 10, 160, 12288]) = js ''flow_video.mp4''"
    using download_filename_safe [where s = "[9, 10, 160, 12288]"] other by simp
  have m2: "sanitizeFilename (Some [8203]) = [8203]"
    using download_filename_safe [where s = "[8203]"] other
    by (simp add: is_forbidden_def)
  have m3: "generatePromptSnippet (Some (js ''a cat'')) = js ''a_cat''"
    using download_filename_safe [where w = "js ''a''" and rest = "[(js '' '', js ''cat'')]"
        and pre = "[]" and post = "[]"]
    by (simp add: is_word_def is_gap_def js_def is_space_def is_forbidden_def)
  have m4: "downloadVideo_filename 2 (Some (js ''a cat'')) 1234 = js ''3_a_cat_1234.mp4''"
    using m3 by (simp add: downloadVideo_filename_def decimal.simps js_def)
  have "download_safeFilename (Some (downloadVideo_filename 2 (Some (js ''a cat'')) 1234))
        = downloadVideo_filename 2 (Some (js ''a cat'')) 1234"
    using download_filename_safe [where taskIndex = 2 and prompt = "Some (js ''a cat'')"
        and now = 1234]
    by blast
  then have m5: "download_safeFilename (Some (js ''3_a_cat_1234.mp4'')) = js ''3_a_cat_1234.mp4''"
    by (simp only: m4)
  have n2: "download_safeFilename (Some (js ''a/b:c.mp4'')) = js ''a_b_c.mp4''"
    using download_filename_safe [where s = "js ''a/b:c.mp4''"] blank
    by (simp add: js_def is_forbidden_def)
  have n3: "generatePromptSnippet (Some (js ''   '')) = js ''no_prompt''"
    using download_filename_safe [where p = "js ''   ''"] blank by simp
  have n4: "generatePromptSnippet (Some (js '' sunset:over/the-sea_at_dusk ''))
       = js ''sunset_over_the''"
    using download_filename_safe [where w = "js ''sunset:over/the-sea_at_dusk''"
        and rest = "[]" and pre = "js '' ''" and post = "js '' ''"] blank words
    by (simp add: js_def is_forbidden_def)
  have n5: "generatePromptSnippet (Some (js '' a cat:  on/the mat at dusk ''))
       = js ''a_cat__on_the_mat_at''"
    using download_filename_safe [where w = "js ''a''" and rest = ?rest
        and pre = "js '' ''" and post = "js '' ''"] blank words
    by (simp add: js_def is_forbidden_def)
  show ?thesis using blank words sp n1 n2 n3 n4 n5 other m1 m2 m3 m4 m5 by simp
qed


section \<open>The scheduler: basic facts\<close>

lemma merge_simps [simp]:
  "totalTasks (merge c u) = orelse (totalTasks u) (totalTasks c)"
  "currentIndex (merge c u) = orelse (currentIndex u) (currentIndex c)"
  "running (merge c u) = orelse (running u) (running c)"
  "paused (merge c u) = orelse (paused u) (paused c)"
  "successCount (merge c u) = orelse (successCount u) (successCount c)"
  "failCount (merge c u) = orelse (failCount u) (failCount c)"
  "pendingTasks (merge c u) = orelse (pendingTasks u) (pendingTasks c)"
  by (simp_all add: merge_def)

lemma orelse_simps [simp]: "orelse None c = c" "orelse (Some v) c = Some v"
  by (simp_all add: orelse_def)

lemma no_fields_simps [simp]:
  "totalTasks no_fields = None" "currentIndex no_fields = None" "running no_fields = None"
  "paused no_fields = None" "successCount no_fields = None" "failCount no_fields = None"
  "pendingTasks no_fields = None"
  by (simp_all add: no_fields_def)

lemma stored_update [simp]:
  "stored_index (updateQueueState u sys) = orelse (currentIndex u) (stored_index sys)"
  "stored_total (updateQueueState u sys) = orelse (totalTasks u) (stored_total sys)"
  by (simp_all add: stored_index_def stored_total_def updateQueueState_def loadQueueState_def
      split: option.splits)

lemma stored_fields [simp]:
  "stored_index (sys\<lparr>queueRunning := b\<rparr>) = stored_index sys"
  "stored_index (sys\<lparr>currentTaskPointer := p\<rparr>) = stored_index sys"
  "stored_index (sys\<lparr>watches := ws\<rparr>) = stored_index sys"
  "stored_index (sys\<lparr>loops := ls\<rparr>) = stored_index sys"
  "stored_total (sys\<lparr>queueRunning := b\<rparr>) = stored_total sys"
  "stored_total (sys\<lparr>currentTaskPointer := p\<rparr>) = stored_total sys"
  "stored_total (sys\<lparr>watches := ws\<rparr>) = stored_total sys"
  "stored_total (sys\<lparr>loops := ls\<rparr>) = stored_total sys"
  by (simp_all add: stored_index_def stored_total_def)

lemma update_other [simp]:
  "loops (updateQueueState u sys) = loops sys"
  "watches (updateQueueState u sys) = watches sys"
  "queueRunning (updateQueueState u sys) = queueRunning sys"
  "metadata (updateQueueState u sys) = metadata sys"
  "currentTaskPointer (updateQueueState u sys) = currentTaskPointer sys"
  by (simp_all add: updateQueueState_def)

lemma loop_step_loops:
  "loop_step oc pc sys = (pc', sys') \<Longrightarrow> loops sys' = loops sys"
  by (cases pc)
     (auto simp: catch_entry_def Let_def split: exec_outcome.splits option.splits if_splits)

lemma watch_step_index:
  assumes "watch_step wo w sys = (w', sys')"
  shows "stored_index sys' = stored_index sys \<and> stored_total sys' = stored_total sys
         \<and> loops sys' = loops sys"
  using assms
  by (cases w) (auto split: watch_outcome.splits option.splits if_splits)

text \<open>\<^verbatim>\<open>handleStartQueue\<close> in closed form: whatever was stored, only \<^verbatim>\<open>queueId\<close> survives.\<close>

lemma handleStartQueue_eq:
  "handleStartQueue md t1 t2 modeOk sys =
     sys\<lparr>store := Some \<lparr>totalTasks = Some (md_totalTasks md), currentIndex = Some 0,
             running = Some True, paused = Some False, successCount = Some 0,
             failCount = Some 0, pendingTasks = Some 0, flowMode = Some (md_flowMode md),
             cropMode = Some (md_cropMode md), createdAt = Some t2,
             queueId = (case store sys of None \<Rightarrow> None | Some s \<Rightarrow> queueId s)\<rparr>,
         queueRunning := True, currentQueueId := Some t1, currentTaskPointer := 0,
         metadata := Some md,
         loops := (if modeOk then loops sys @ [LTop] else loops sys)\<rparr>"
  by (simp add: handleStartQueue_def Let_def updateQueueState_def loadQueueState_def
      merge_def no_fields_def orelse_def truthy_def split: option.splits)

lemma handleStartQueue_fresh:
  assumes "loops sys = []" and "list_all idle_watch (watches sys)" and "0 \<le> md_totalTasks md"
  shows "fresh_run (handleStartQueue md t1 t2 True sys)"
  using assms by (simp add: fresh_run_def handleStartQueue_eq)

subsection \<open>Evaluating the scenarios\<close>

lemma replicate_numeral_unfold:
  "replicate (numeral k) x = x # replicate (pred_numeral k) x"
  by (simp add: numeral_eq_Suc)

lemmas sched_simps = replicate_numeral_unfold submit_one_def

lemmas eval_simps = handleStartQueue_eq loadQueueState_def updateQueueState_def
  merge_def no_fields_def orelse_def truthy_def num_or0_def js_ge_def js_lt_def Let_def
  catch_entry_def processTask_throws_early_def QUEUE_LIMIT_def three_tasks_def
  handlePauseQueue_def handleClearQueue_def stored_pending_def stored_index_def
  stored_total_def active_loops_def ten_tasks_def

lemma started_eq:
  "started =
     \<lparr>store = Some \<lparr>totalTasks = Some 3, currentIndex = Some 0, running = Some True,
                     paused = Some False, successCount = Some 0, failCount = Some 0,
                     pendingTasks = Some 0, flowMode = Some (js ''m''),
                     cropMode = Some (js ''c''), createdAt = Some 1001,
                     queueId = Some (decimal 900)\<rparr>,
      storeMeta = Some three_tasks, queueRunning = True, currentTaskPointer = 0,
      currentQueueId = Some 1000, metadata = Some three_tasks, loops = [LTop],
      watches = []\<rparr>"
  by (simp add: started_def handleStartQueue_eq popup_saveState_def initial_def three_tasks_def)

lemma started_fresh: "fresh_run started"
  by (simp add: started_eq fresh_run_def three_tasks_def)

lemma two_submitted_eq:
  "two_submitted =
     \<lparr>store = Some two_submitted_state, storeMeta = Some three_tasks, queueRunning = True,
      currentTaskPointer = 2, currentQueueId = Some 1000, metadata = Some three_tasks,
      loops = [LTop], watches = [WWait 0, WWait 1]\<rparr>"
  by (simp add: two_submitted_def two_submitted_state_def started_eq sched_simps eval_simps)

section \<open>The stored index within one run\<close>

lemma loop_step_index:
  assumes "index_inv t i pc sys" and "loop_step oc pc sys = (pc', sys')"
  shows "\<exists>j. index_inv t j pc' sys' \<and> i \<le> j \<and> j \<le> i + 1"
proof (cases pc)
  case LTop
  then show ?thesis using assms
    apply (auto simp: index_inv_def loadQueueState_def catch_entry_def Let_def js_ge_def num_or0_def
        stored_index_def stored_total_def
        split: if_splits option.splits)
    done
next
  case LCompleteWrite
  then show ?thesis using assms
    by (auto simp: index_inv_def Let_def split: if_splits)
next
  case (LExec idx)
  then show ?thesis using assms
    by (auto simp: index_inv_def loadQueueState_def catch_entry_def split: exec_outcome.splits option.splits if_splits)
next
  case (LIncWrite idx st)
  then show ?thesis using assms
    by (auto simp: index_inv_def Let_def)
next
  case (LAdvLoad idx)
  then show ?thesis using assms
    by (auto simp: index_inv_def Let_def loadQueueState_def stored_index_def stored_total_def split: option.splits)
next
  case (LAdvWrite st)
  then show ?thesis using assms
    by (auto simp: index_inv_def)
next
  case (LTaskFailWrite st)
  then show ?thesis using assms
    by (auto simp: index_inv_def catch_entry_def split: if_splits)
next
  case LCatchLoad
  then show ?thesis using assms
    by (auto simp: index_inv_def loadQueueState_def stored_index_def stored_total_def num_or0_def split: option.splits)
next
  case (LCatchWrite st)
  then show ?thesis using assms
    by (auto simp: index_inv_def)
next
  case LTrailWrite
  then show ?thesis using assms
    by (auto simp: index_inv_def)
next
  case LExit
  then show ?thesis using assms
    by (auto simp: index_inv_def)
qed

lemma exec_index:
  assumes inv: "run_index_inv t i sys" and e: "single_run_event e"
  shows "\<exists>j. run_index_inv t j (exec e sys) \<and> i \<le> j \<and> j \<le> i + 1"
proof -
  from inv obtain pc where pc: "loops sys = [pc]" and ii: "index_inv t i pc sys"
    by (auto simp: run_index_inv_def split: list.splits)
  show ?thesis
  proof (cases e)
    case (ELoop k oc)
    show ?thesis
    proof (cases "k = 0")
      case True
      obtain pc' sys' where st: "loop_step oc pc sys = (pc', sys')" by fastforce
      from loop_step_index [OF ii st] obtain j
        where j: "index_inv t j pc' sys'" "i \<le> j" "j \<le> i + 1" by blast
      have ls: "loops sys' = [pc]" using loop_step_loops [OF st] pc by simp
      have "exec e sys = sys'\<lparr>loops := [pc']\<rparr>"
        using ELoop True pc st ls by simp
      moreover have "index_inv t j pc' (sys'\<lparr>loops := [pc']\<rparr>)"
        using j(1) by (simp add: index_inv_def)
      ultimately show ?thesis using j by (auto simp: run_index_inv_def)
    next
      case False
      then have "exec e sys = sys" using ELoop pc by simp
      then show ?thesis using inv by auto
    qed
  next
    case (EWatch k wo)
    show ?thesis
    proof (cases "k < length (watches sys)")
      case True
      obtain w' sys' where st: "watch_step wo (watches sys ! k) sys = (w', sys')" by fastforce
      have ex: "exec e sys = sys'\<lparr>watches := (watches sys')[k := w']\<rparr>"
        using EWatch True st by simp
      from watch_step_index [OF st] have "index_inv t i pc (exec e sys)" "loops (exec e sys) = [pc]"
        using ii pc ex by (simp_all add: index_inv_def)
      then show ?thesis by (auto simp: run_index_inv_def)
    next
      case False
      then have "exec e sys = sys" using EWatch by simp
      then show ?thesis using inv by auto
    qed
  next
    case EPause
    then have "index_inv t i pc (exec e sys)" "loops (exec e sys) = [pc]"
      using ii pc by (simp_all add: handlePauseQueue_def index_inv_def)
    then show ?thesis by (auto simp: run_index_inv_def)
  next
    case EClear
    then show ?thesis using e by simp
  next
    case (EStart md t1 t2 modeOk)
    then show ?thesis using e by simp
  qed
qed

lemma run_index:
  assumes "run_index_inv t i sys" and "list_all single_run_event evs"
  shows "\<exists>j. run_index_inv t j (run evs sys) \<and> i \<le> j"
  using assms
proof (induction evs arbitrary: i sys)
  case Nil
  then show ?case by auto
next
  case (Cons e evs)
  from Cons.prems have e: "single_run_event e" and es: "list_all single_run_event evs" by simp_all
  from exec_index [OF Cons.prems(1) e] obtain j
    where j: "run_index_inv t j (exec e sys)" "i \<le> j" by blast
  from Cons.IH [OF j(1) es] obtain k
    where "run_index_inv t k (run evs (exec e sys))" "j \<le> k" by blast
  then show ?case using j(2) by (intro exI [of _ k]) simp
qed

lemma fresh_run_index:
  "fresh_run sys \<Longrightarrow> \<exists>t. run_index_inv t 0 sys"
  by (auto simp: fresh_run_def run_index_inv_def index_inv_def stored_total_def stored_index_def
      split: option.splits)

text \<open>
  With every call of \<^verbatim>\<open>updateQueueState\<close> as one indivisible step, in a run with one
  submission loop, whatever the page does to each submission and however the steps of the
  loop, of the completion watches and a pause are ordered: before and after every step the
  stored \<^verbatim>\<open>currentIndex\<close> and \<^verbatim>\<open>totalTasks\<close> are present, \<^verbatim>\<open>totalTasks\<close> is unchanged,
  \<^verbatim>\<open>currentIndex\<close> does not decrease, grows by at most one and does not exceed
  \<^verbatim>\<open>totalTasks\<close>. The write of the failure path (the \<^verbatim>\<open>catch\<close> of \<^verbatim>\<open>processQueue\<close>) adds
  exactly one, and happens only at an index below \<^verbatim>\<open>totalTasks\<close>.
\<close>

lemma currentIndex_monotone_bounded:
  assumes "fresh_run sys0" and "list_all single_run_event evs" and "single_run_event e"
  shows "\<exists>i j t. stored_index (run evs sys0) = Some i
           \<and> stored_index (exec e (run evs sys0)) = Some j
           \<and> stored_total (run evs sys0) = Some t
           \<and> stored_total (exec e (run evs sys0)) = Some t
           \<and> 0 \<le> i \<and> i \<le> j \<and> j \<le> i + 1 \<and> j \<le> t
           \<and> (\<forall>st oc. loops (run evs sys0) = [LCatchWrite st] \<and> e = ELoop 0 oc
                 \<longrightarrow> j = i + 1 \<and> i < t)"
proof -
  from fresh_run_index [OF assms(1)] obtain t where "run_index_inv t 0 sys0" by blast
  from run_index [OF this assms(2)] obtain i
    where i: "run_index_inv t i (run evs sys0)" by blast
  from exec_index [OF i assms(3)] obtain j
    where j: "run_index_inv t j (exec e (run evs sys0))" "i \<le> j" "j \<le> i + 1" by blast
  have catch: "j = i + 1 \<and> i < t"
    if "loops (run evs sys0) = [LCatchWrite st]" "e = ELoop 0 oc" for st oc
    using that i j(1)
    by (auto simp: run_index_inv_def index_inv_def split: list.splits)
  show ?thesis
    using i j catch
    by (auto simp: run_index_inv_def index_inv_def split: list.splits)
qed

lemma currentIndex_monotone_bounded_example:
  "fresh_run started \<and> list_all single_run_event nine_steps
   \<and> single_run_event (ELoop 0 SubmitOk)
   \<and> stored_index (run nine_steps started) = Some 1
   \<and> stored_index (exec (ELoop 0 SubmitOk) (run nine_steps started)) = Some 2
   \<and> (\<exists>i j t. stored_index (run nine_steps started) = Some i
           \<and> stored_index (exec (ELoop 0 SubmitOk) (run nine_steps started)) = Some j
           \<and> stored_total (run nine_steps started) = Some t
           \<and> stored_total (exec (ELoop 0 SubmitOk) (run nine_steps started)) = Some t
           \<and> 0 \<le> i \<and> i \<le> j \<and> j \<le> i + 1 \<and> j \<le> t
           \<and> (\<forall>st oc. loops (run nine_steps started) = [LCatchWrite st]
                     \<and> ELoop 0 SubmitOk = ELoop 0 oc
                 \<longrightarrow> j = i + 1 \<and> i < t))"
proof -
  have h1: "fresh_run started" by (rule started_fresh)
  have h2: "list_all single_run_event nine_steps"
    by (simp add: nine_steps_def sched_simps)
  have h3: "single_run_event (ELoop 0 SubmitOk)" by simp
  have v: "stored_index (run nine_steps started) = Some 1"
    "stored_index (exec (ELoop 0 SubmitOk) (run nine_steps started)) = Some 2"
    by (simp_all add: nine_steps_def started_eq sched_simps eval_simps)
  show ?thesis
    using h1 h2 h3 v currentIndex_monotone_bounded [OF h1 h2 h3] by blast
qed

section \<open>The pending count within one run\<close>

lemma stored_pending_update [simp]:
  "stored_pending (updateQueueState u sys) =
     (case pendingTasks u of None \<Rightarrow> stored_pending sys | Some q \<Rightarrow> q)"
  by (simp add: stored_pending_def updateQueueState_def loadQueueState_def num_or0_def
      split: option.splits)

lemma stored_pending_fields [simp]:
  "stored_pending (sys\<lparr>queueRunning := b\<rparr>) = stored_pending sys"
  "stored_pending (sys\<lparr>currentTaskPointer := p\<rparr>) = stored_pending sys"
  "stored_pending (sys\<lparr>watches := ws\<rparr>) = stored_pending sys"
  "stored_pending (sys\<lparr>loops := ls\<rparr>) = stored_pending sys"
  by (simp_all add: stored_pending_def)

lemma loop_step_pending:
  assumes "pending_inv pc sys" and "loop_step oc pc sys = (pc', sys')"
  shows "pending_inv pc' sys'"
proof (cases pc)
  case LTop
  then show ?thesis using assms
    by (auto simp: pending_inv_def loadQueueState_def catch_entry_def Let_def stored_pending_def
        split: if_splits option.splits)
next
  case LCompleteWrite
  then show ?thesis using assms
    by (auto simp: pending_inv_def Let_def QUEUE_LIMIT_def split: if_splits)
next
  case (LExec idx)
  then show ?thesis using assms
    by (auto simp: pending_inv_def loadQueueState_def catch_entry_def stored_pending_def
        split: exec_outcome.splits option.splits if_splits)
next
  case (LIncWrite idx st)
  then show ?thesis using assms
    by (auto simp: pending_inv_def Let_def)
next
  case (LAdvLoad idx)
  then show ?thesis using assms
    by (auto simp: pending_inv_def Let_def loadQueueState_def stored_pending_def snapshot_ok_def
        num_or0_def no_fields_def split: option.splits)
next
  case (LAdvWrite st)
  then show ?thesis using assms
    by (auto simp: pending_inv_def snapshot_ok_def split: option.splits)
next
  case (LTaskFailWrite st)
  then show ?thesis using assms
    by (auto simp: pending_inv_def catch_entry_def QUEUE_LIMIT_def split: if_splits)
next
  case LCatchLoad
  then show ?thesis using assms
    by (auto simp: pending_inv_def loadQueueState_def stored_pending_def snapshot_ok_def
        num_or0_def split: option.splits)
next
  case (LCatchWrite st)
  then show ?thesis using assms
    by (auto simp: pending_inv_def snapshot_ok_def split: option.splits)
next
  case LTrailWrite
  then show ?thesis using assms
    by (auto simp: pending_inv_def)
next
  case LExit
  then show ?thesis using assms
    by (auto simp: pending_inv_def)
qed

lemma list_all_update:
  "list_all P xs \<Longrightarrow> P y \<Longrightarrow> list_all P (xs[k := y])"
  by (induction xs arbitrary: k) (auto split: nat.splits)

lemma pc_pending_ok_lower:
  "pc_pending_ok p pc \<Longrightarrow> p' = p \<or> p' < QUEUE_LIMIT \<Longrightarrow> pc_pending_ok p' pc"
  by (cases pc) auto

lemma watch_step_effect:
  assumes ok: "watch_pending_ok w" and b: "0 \<le> stored_pending sys" "stored_pending sys \<le> QUEUE_LIMIT"
    and st: "watch_step wo w sys = (w', sys')"
  shows "watch_pending_ok w' \<and> watches sys' = watches sys \<and> loops sys' = loops sys
         \<and> (stored_pending sys' = stored_pending sys
             \<or> (0 \<le> stored_pending sys' \<and> stored_pending sys' < QUEUE_LIMIT))"
proof (cases w)
  case (WWait idx)
  then show ?thesis using b st
    by (auto simp: loadQueueState_def stored_pending_def QUEUE_LIMIT_def
        split: watch_outcome.splits option.splits)
next
  case (WSuccWrite n p)
  then show ?thesis using ok st by auto
next
  case (WVerify n)
  then show ?thesis using st by (auto split: option.splits if_splits)
next
  case (WRetryWrite n)
  then show ?thesis using st by auto
next
  case (WFailWrite p f)
  then show ?thesis using ok st by auto
next
  case WDone
  then show ?thesis using st by auto
qed

lemma watch_step_pending:
  assumes inv: "pending_inv pc sys" and k: "k < length (watches sys)"
    and st: "watch_step wo (watches sys ! k) sys = (w', sys')"
  shows "pending_inv pc (sys'\<lparr>watches := (watches sys')[k := w']\<rparr>)"
proof -
  have wk: "watch_pending_ok (watches sys ! k)"
    using inv k by (simp add: pending_inv_def list_all_length)
  have all: "list_all watch_pending_ok (watches sys)" using inv by (simp add: pending_inv_def)
  have b: "0 \<le> stored_pending sys" "stored_pending sys \<le> QUEUE_LIMIT"
    and pcok: "pc_pending_ok (stored_pending sys) pc"
    using inv by (simp_all add: pending_inv_def)
  from watch_step_effect [OF wk b st]
  have w': "watch_pending_ok w'" and ws: "watches sys' = watches sys"
    and p: "stored_pending sys' = stored_pending sys
            \<or> (0 \<le> stored_pending sys' \<and> stored_pending sys' < QUEUE_LIMIT)"
    by simp_all
  have "pc_pending_ok (stored_pending sys') pc"
    using pc_pending_ok_lower [OF pcok] p by blast
  moreover have "0 \<le> stored_pending sys' \<and> stored_pending sys' \<le> QUEUE_LIMIT"
    using p b by auto
  ultimately show ?thesis using all w' ws by (simp add: pending_inv_def list_all_update)
qed

lemma exec_pending:
  assumes inv: "run_pending_inv sys" and e: "single_run_event e"
  shows "run_pending_inv (exec e sys)"
proof -
  from inv obtain pc where pc: "loops sys = [pc]" and pi: "pending_inv pc sys"
    by (auto simp: run_pending_inv_def split: list.splits)
  show ?thesis
  proof (cases e)
    case (ELoop k oc)
    show ?thesis
    proof (cases "k = 0")
      case True
      obtain pc' sys' where st: "loop_step oc pc sys = (pc', sys')" by fastforce
      have ls: "loops sys' = [pc]" using loop_step_loops [OF st] pc by simp
      have "exec e sys = sys'\<lparr>loops := [pc']\<rparr>"
        using ELoop True pc st ls by simp
      moreover have "pending_inv pc' (sys'\<lparr>loops := [pc']\<rparr>)"
        using loop_step_pending [OF pi st] by (simp add: pending_inv_def)
      ultimately show ?thesis by (simp add: run_pending_inv_def)
    next
      case False
      then have "exec e sys = sys" using ELoop pc by simp
      then show ?thesis using inv by simp
    qed
  next
    case (EWatch k wo)
    show ?thesis
    proof (cases "k < length (watches sys)")
      case True
      obtain w' sys' where st: "watch_step wo (watches sys ! k) sys = (w', sys')" by fastforce
      have ex: "exec e sys = sys'\<lparr>watches := (watches sys')[k := w']\<rparr>"
        using EWatch True st by simp
      have "loops sys' = [pc]" using watch_step_index [OF st] pc by simp
      then show ?thesis
        using watch_step_pending [OF pi True st] ex by (simp add: run_pending_inv_def)
    next
      case False
      then have "exec e sys = sys" using EWatch by simp
      then show ?thesis using inv by simp
    qed
  next
    case EPause
    then show ?thesis using pi pc
      by (simp add: handlePauseQueue_def run_pending_inv_def pending_inv_def)
  next
    case EClear
    then show ?thesis using e by simp
  next
    case (EStart md t1 t2 modeOk)
    then show ?thesis using e by simp
  qed
qed

lemma run_pending:
  "run_pending_inv sys \<Longrightarrow> list_all single_run_event evs \<Longrightarrow> run_pending_inv (run evs sys)"
  by (induction evs arbitrary: sys) (simp_all add: exec_pending)

lemma idle_watch_pending_ok: "idle_watch w \<Longrightarrow> watch_pending_ok w"
  by (cases w) simp_all

lemma fresh_run_pending: "fresh_run sys \<Longrightarrow> run_pending_inv sys"
  by (auto simp: fresh_run_def run_pending_inv_def pending_inv_def stored_pending_def
      num_or0_def QUEUE_LIMIT_def list_all_iff idle_watch_pending_ok split: option.splits)

text \<open>
  With every call of \<^verbatim>\<open>updateQueueState\<close> as one atomic update, in a run with one
  submission loop, at every point between two steps of any schedule of loop steps, watch
  steps and pauses, the stored \<^verbatim>\<open>pendingTasks\<close> (read as the code reads it, a missing
  count as 0) lies between 0 and \<^verbatim>\<open>QUEUE_LIMIT\<close>. At the limit the loop head starts no
  submission and leaves storage as it is, in whatever state.
\<close>

lemma one_loop_within_limit:
  assumes "fresh_run sys0" and "list_all single_run_event evs"
  shows "0 \<le> stored_pending (run evs sys0) \<and> stored_pending (run evs sys0) \<le> QUEUE_LIMIT"
proof -
  have "run_pending_inv (run evs sys0)"
    using run_pending [OF fresh_run_pending [OF assms(1)] assms(2)] .
  then show ?thesis
    by (auto simp: run_pending_inv_def pending_inv_def split: list.splits)
qed

lemma loop_head_refuses_at_limit:
  "QUEUE_LIMIT \<le> stored_pending sys \<Longrightarrow>
     fst (loop_step oc LTop sys) \<in> {LTop, LExit}
     \<and> store (snd (loop_step oc LTop sys)) = store sys"
  by (auto simp: stored_pending_def loadQueueState_def Let_def QUEUE_LIMIT_def
      split: option.splits)

section \<open>Completion\<close>

lemma loop_step_counts:
  assumes "0 \<le> stored_pending sys" and "loop_count_ok pc"
    and "list_all watch_count_ok (watches sys)"
    and "loop_step oc pc sys = (pc', sys')"
  shows "0 \<le> stored_pending sys' \<and> loop_count_ok pc'
         \<and> list_all watch_count_ok (watches sys')"
proof (cases pc)
  case LTop
  then show ?thesis using assms
    by (auto simp: loadQueueState_def catch_entry_def Let_def stored_pending_def
        split: if_splits option.splits)
next
  case LCompleteWrite
  then show ?thesis using assms by (auto simp: Let_def split: if_splits)
next
  case (LExec idx)
  then show ?thesis using assms
    by (auto simp: loadQueueState_def catch_entry_def stored_pending_def
        split: exec_outcome.splits option.splits if_splits)
next
  case (LIncWrite idx st)
  then show ?thesis using assms by (auto simp: Let_def)
next
  case (LAdvLoad idx)
  then show ?thesis using assms
    by (auto simp: Let_def loadQueueState_def stored_pending_def num_or0_def no_fields_def
        split: option.splits)
next
  case (LAdvWrite st)
  then show ?thesis using assms by (auto simp: num_or0_def split: option.splits)
next
  case (LTaskFailWrite st)
  then show ?thesis using assms by (auto simp: catch_entry_def split: if_splits)
next
  case LCatchLoad
  then show ?thesis using assms
    by (auto simp: loadQueueState_def stored_pending_def num_or0_def split: option.splits)
next
  case (LCatchWrite st)
  then show ?thesis using assms by (auto simp: num_or0_def split: option.splits)
next
  case LTrailWrite
  then show ?thesis using assms by auto
next
  case LExit
  then show ?thesis using assms by auto
qed

lemma watch_step_counts:
  assumes "0 \<le> stored_pending sys" and "watch_count_ok w"
    and "watch_step wo w sys = (w', sys')"
  shows "0 \<le> stored_pending sys' \<and> watch_count_ok w' \<and> watches sys' = watches sys
         \<and> loops sys' = loops sys"
  using assms
  by (cases w)
     (auto simp: loadQueueState_def split: watch_outcome.splits option.splits if_splits)

lemma exec_counts:
  assumes inv: "counts_nonneg sys"
  shows "counts_nonneg (exec e sys)"
proof (cases e)
  case (ELoop k oc)
  show ?thesis
  proof (cases "k < length (loops sys)")
    case True
    obtain pc' sys' where st: "loop_step oc (loops sys ! k) sys = (pc', sys')" by fastforce
    have ok: "loop_count_ok (loops sys ! k)"
      using inv True by (simp add: counts_nonneg_def list_all_length)
    from loop_step_counts [OF _ ok _ st] inv
    have r: "0 \<le> stored_pending sys'" "loop_count_ok pc'"
      "list_all watch_count_ok (watches sys')"
      by (simp_all add: counts_nonneg_def)
    have ls: "loops sys' = loops sys" by (rule loop_step_loops [OF st])
    have "exec e sys = sys'\<lparr>loops := (loops sys')[k := pc']\<rparr>"
      using ELoop True st by simp
    then show ?thesis using r ls inv
      by (simp add: counts_nonneg_def list_all_update)
  next
    case False
    then show ?thesis using ELoop inv by simp
  qed
next
  case (EWatch k wo)
  show ?thesis
  proof (cases "k < length (watches sys)")
    case True
    obtain w' sys' where st: "watch_step wo (watches sys ! k) sys = (w', sys')" by fastforce
    have ok: "watch_count_ok (watches sys ! k)"
      using inv True by (simp add: counts_nonneg_def list_all_length)
    from watch_step_counts [OF _ ok st] inv
    have r: "0 \<le> stored_pending sys'" "watch_count_ok w'" "watches sys' = watches sys"
      "loops sys' = loops sys"
      by (simp_all add: counts_nonneg_def)
    have "exec e sys = sys'\<lparr>watches := (watches sys')[k := w']\<rparr>"
      using EWatch True st by simp
    then show ?thesis using r inv by (simp add: counts_nonneg_def list_all_update)
  next
    case False
    then show ?thesis using EWatch inv by simp
  qed
next
  case EPause
  then show ?thesis using inv by (simp add: handlePauseQueue_def counts_nonneg_def)
next
  case EClear
  then show ?thesis using inv
    by (simp add: handleClearQueue_def counts_nonneg_def stored_pending_def)
next
  case (EStart md t1 t2 modeOk)
  then show ?thesis using inv
    by (simp add: handleStartQueue_eq counts_nonneg_def stored_pending_def num_or0_def)
qed

lemma run_counts: "counts_nonneg sys \<Longrightarrow> counts_nonneg (run evs sys)"
  by (induction evs arbitrary: sys) (simp_all add: exec_counts)

lemma counts_nonneg_initial: "counts_nonneg initial"
  by (simp add: counts_nonneg_def initial_def stored_pending_def)

lemma counts_nonneg_popup:
  "counts_nonneg sys \<Longrightarrow> counts_nonneg (popup_saveState md tq tc sys)"
  by (simp add: counts_nonneg_def popup_saveState_def stored_pending_def num_or0_def)

lemma loop_head_completes:
  "fst (loop_step oc LTop sys) = LCompleteWrite
     \<longleftrightarrow> queueRunning sys
         \<and> (\<exists>st i. store sys = Some st \<and> currentIndex st = Some i
               \<and> num_or0 (totalTasks st) \<le> i \<and> num_or0 (pendingTasks st) \<le> 0)"
  by (auto simp: loadQueueState_def js_ge_def Let_def catch_entry_def
      split: option.splits)

text \<open>
  Claim C3, as the code has it. A step of the loop from its head goes to the completion
  branch exactly when the in-memory flag \<^verbatim>\<open>queueRunning\<close> is set, a state is stored, its
  \<^verbatim>\<open>currentIndex\<close> is at least \<^verbatim>\<open>totalTasks\<close> (a missing \<^verbatim>\<open>totalTasks\<close> read as 0) and its
  \<^verbatim>\<open>pendingTasks\<close> is not positive. The stored count is never negative in a state reached
  by any schedule of loop steps, watch steps, pauses, clears and starts from a state that
  holds no negative count (a freshly loaded page, and what the popup stores, hold none), so
  there the last condition is that \<^verbatim>\<open>pendingTasks\<close> is 0.
  With the index at or past \<^verbatim>\<open>totalTasks\<close> and a positive pending count the step changes
  nothing and stays at the loop head; no other control point leads to the completion
  branch; and the write of that branch stores \<^verbatim>\<open>running = false\<close> and \<^verbatim>\<open>paused = false\<close>.
\<close>

theorem completion_iff_exhausted_and_drained:
  "(fst (loop_step oc LTop sys) = LCompleteWrite
      \<longleftrightarrow> queueRunning sys
          \<and> (\<exists>st i. store sys = Some st \<and> currentIndex st = Some i
                \<and> num_or0 (totalTasks st) \<le> i \<and> num_or0 (pendingTasks st) \<le> 0))
   \<and> (counts_nonneg sys0 \<longrightarrow>
        0 \<le> stored_pending (run evs sys0)
        \<and> (fst (loop_step oc LTop (run evs sys0)) = LCompleteWrite
             \<longleftrightarrow> queueRunning (run evs sys0)
                 \<and> (\<exists>st i. store (run evs sys0) = Some st \<and> currentIndex st = Some i
                       \<and> num_or0 (totalTasks st) \<le> i \<and> num_or0 (pendingTasks st) = 0)))
   \<and> (queueRunning sys \<and> store sys = Some st \<and> currentIndex st = Some i
        \<and> num_or0 (totalTasks st) \<le> i \<and> 0 < num_or0 (pendingTasks st)
      \<longrightarrow> loop_step oc LTop sys = (LTop, sys))
   \<and> (pc \<noteq> LTop \<longrightarrow> fst (loop_step oc pc sys) \<noteq> LCompleteWrite)
   \<and> map_option running (store (snd (loop_step oc LCompleteWrite sys))) = Some (Some False)
   \<and> map_option paused (store (snd (loop_step oc LCompleteWrite sys))) = Some (Some False)"
proof -
  have a: "fst (loop_step oc LTop sys) = LCompleteWrite
      \<longleftrightarrow> queueRunning sys
          \<and> (\<exists>st i. store sys = Some st \<and> currentIndex st = Some i
                \<and> num_or0 (totalTasks st) \<le> i \<and> num_or0 (pendingTasks st) \<le> 0)"
    by (rule loop_head_completes)
  have b: "0 \<le> stored_pending (run evs sys0)
        \<and> (fst (loop_step oc LTop (run evs sys0)) = LCompleteWrite
             \<longleftrightarrow> queueRunning (run evs sys0)
                 \<and> (\<exists>st i. store (run evs sys0) = Some st \<and> currentIndex st = Some i
                       \<and> num_or0 (totalTasks st) \<le> i \<and> num_or0 (pendingTasks st) = 0))"
    if "counts_nonneg sys0"
  proof -
    from run_counts [OF that] have p: "0 \<le> stored_pending (run evs sys0)"
      by (simp add: counts_nonneg_def)
    then have "num_or0 (pendingTasks st) \<le> 0 \<longleftrightarrow> num_or0 (pendingTasks st) = 0"
      if "store (run evs sys0) = Some st" for st
      using that by (simp add: stored_pending_def)
    then show ?thesis using p loop_head_completes [of oc "run evs sys0"] by auto
  qed
  have c: "queueRunning sys \<and> store sys = Some st \<and> currentIndex st = Some i
        \<and> num_or0 (totalTasks st) \<le> i \<and> 0 < num_or0 (pendingTasks st)
      \<longrightarrow> loop_step oc LTop sys = (LTop, sys)"
    by (simp add: loadQueueState_def js_ge_def)
  have d: "pc \<noteq> LTop \<longrightarrow> fst (loop_step oc pc sys) \<noteq> LCompleteWrite"
    by (cases pc)
       (auto simp: Let_def catch_entry_def split: exec_outcome.splits option.splits)
  have e: "map_option running (store (snd (loop_step oc LCompleteWrite sys))) = Some (Some False)
    \<and> map_option paused (store (snd (loop_step oc LCompleteWrite sys))) = Some (Some False)"
    by (simp add: Let_def updateQueueState_def)
  show ?thesis using a b c d e by blast
qed

lemma all_submitted_eq:
  "all_submitted =
     \<lparr>store = Some (two_submitted_state\<lparr>currentIndex := Some 3, pendingTasks := Some 3\<rparr>),
      storeMeta = Some three_tasks, queueRunning = True,
      currentTaskPointer = 3, currentQueueId = Some 1000, metadata = Some three_tasks,
      loops = [LTop], watches = [WWait 0, WWait 1, WWait 2]\<rparr>"
  by (simp add: all_submitted_def two_submitted_state_def started_eq sched_simps eval_simps)

theorem completion_iff_exhausted_and_drained_witness:
  "queueRunning all_submitted
   \<and> map_option currentIndex (store all_submitted) = Some (Some 3)
   \<and> map_option totalTasks (store all_submitted) = Some (Some 3)
   \<and> map_option pendingTasks (store all_submitted) = Some (Some 3)
   \<and> loop_step SubmitOk LTop all_submitted = (LTop, all_submitted)
   \<and> counts_nonneg started
   \<and> 0 \<le> stored_pending (run three_failed started)
   \<and> fst (loop_step ExecFail LTop (run three_failed started)) = LCompleteWrite
   \<and> queueRunning (run three_failed started)
   \<and> map_option currentIndex (store (run three_failed started)) = Some (Some 3)
   \<and> map_option totalTasks (store (run three_failed started)) = Some (Some 3)
   \<and> map_option pendingTasks (store (run three_failed started)) = Some (Some 0)"
proof -
  let ?st = "two_submitted_state\<lparr>currentIndex := Some 3, pendingTasks := Some 3\<rparr>"
  have h: "queueRunning all_submitted" "store all_submitted = Some ?st"
    "currentIndex ?st = Some 3" "num_or0 (totalTasks ?st) \<le> 3" "0 < num_or0 (pendingTasks ?st)"
    by (simp_all add: all_submitted_eq two_submitted_state_def num_or0_def)
  have drain: "loop_step SubmitOk LTop all_submitted = (LTop, all_submitted)"
    using completion_iff_exhausted_and_drained
      [where sys = all_submitted and st = ?st and i = 3 and oc = SubmitOk] h
    by blast
  have c0: "counts_nonneg started"
    by (simp add: counts_nonneg_def started_eq stored_pending_def num_or0_def)
  have compl: "fst (loop_step ExecFail LTop (run three_failed started)) = LCompleteWrite"
    by (simp add: three_failed_def started_eq sched_simps eval_simps)
  from completion_iff_exhausted_and_drained
      [where ?sys0.0 = started and evs = three_failed and oc = ExecFail] c0 compl
  have r: "0 \<le> stored_pending (run three_failed started)
      \<and> queueRunning (run three_failed started)
      \<and> (\<exists>st i. store (run three_failed started) = Some st \<and> currentIndex st = Some i
             \<and> num_or0 (totalTasks st) \<le> i \<and> num_or0 (pendingTasks st) = 0)"
    by blast
  have v: "map_option currentIndex (store (run three_failed started)) = Some (Some 3)"
    "map_option totalTasks (store (run three_failed started)) = Some (Some 3)"
    "map_option pendingTasks (store (run three_failed started)) = Some (Some 0)"
    by (simp_all add: three_failed_def started_eq sched_simps eval_simps)
  show ?thesis using h drain c0 compl r v by (simp add: two_submitted_state_def)
qed

text \<open>
  Claim C3 as stated fails in both directions. A second start while the first loop is
  inside \<^verbatim>\<open>processTask(0)\<close>, every submission failing: the second loop takes the index to
  3, the \<^verbatim>\<open>catch\<close> of the first loop then adds one to the index it reads, and at a stored
  index of 4 with 3 tasks the loop head takes the completion branch and stores
  \<^verbatim>\<open>running = false\<close>, \<^verbatim>\<open>paused = false\<close>. And a run paused at index 3 of 3 with nothing
  pending: the loop leaves at its \<^verbatim>\<open>while\<close> test, and storage keeps \<^verbatim>\<open>paused = true\<close>.
\<close>

theorem completion_not_at_equality:
  "stored_index (run overshoot started) = Some 4
   \<and> stored_total (run overshoot started) = Some 3
   \<and> stored_pending (run overshoot started) = 0
   \<and> queueRunning (run overshoot started)
   \<and> loops (run overshoot started) = [LTop, LTop]
   \<and> loops (exec (ELoop 0 ExecFail) (run overshoot started)) = [LCompleteWrite, LTop]
   \<and> map_option running
        (store (exec (ELoop 0 ExecFail) (exec (ELoop 0 ExecFail) (run overshoot started))))
       = Some (Some False)
   \<and> map_option paused
        (store (exec (ELoop 0 ExecFail) (exec (ELoop 0 ExecFail) (run overshoot started))))
       = Some (Some False)
   \<and> stored_index (run paused_at_end started) = Some 3
   \<and> stored_total (run paused_at_end started) = Some 3
   \<and> stored_pending (run paused_at_end started) = 0
   \<and> loops (run paused_at_end started) = [LTop]
   \<and> exec (ELoop 0 ExecFail) (run paused_at_end started)
       = (run paused_at_end started)\<lparr>loops := [LExit]\<rparr>
   \<and> map_option running (store (run paused_at_end started)) = Some (Some False)
   \<and> map_option paused (store (run paused_at_end started)) = Some (Some True)"
proof -
  let ?second = "EStart three_tasks 5000 5001 True"
  have restarted: "loops (run [ELoop 0 ExecFail, ?second] started) = [LExec 0, LTop]
      \<and> stored_index (run [ELoop 0 ExecFail, ?second] started) = Some 0"
    by (simp add: started_eq eval_simps)
  have second_loop_done: "stored_index
        (run ([ELoop 0 ExecFail, ?second] @ replicate 15 (ELoop 1 ExecFail)) started) = Some 3
      \<and> loops (run ([ELoop 0 ExecFail, ?second] @ replicate 15 (ELoop 1 ExecFail)) started)
          = [LExec 0, LTop]"
    by (simp add: started_eq sched_simps eval_simps)
  have over: "run overshoot started =
      \<lparr>store = Some \<lparr>totalTasks = Some 3, currentIndex = Some 4, running = Some True,
                      paused = Some False, successCount = Some 0, failCount = Some 8,
                      pendingTasks = Some 0, flowMode = Some (js ''m''),
                      cropMode = Some (js ''c''), createdAt = Some 5001,
                      queueId = Some (decimal 900)\<rparr>,
       storeMeta = Some three_tasks, queueRunning = True, currentTaskPointer = 4,
       currentQueueId = Some 5000, metadata = Some three_tasks, loops = [LTop, LTop],
       watches = []\<rparr>"
    by (simp add: overshoot_def started_eq sched_simps eval_simps)
  have paused: "run paused_at_end started =
      \<lparr>store = Some \<lparr>totalTasks = Some 3, currentIndex = Some 3, running = Some False,
                      paused = Some True, successCount = Some 0, failCount = Some 6,
                      pendingTasks = Some 0, flowMode = Some (js ''m''),
                      cropMode = Some (js ''c''), createdAt = Some 1001,
                      queueId = Some (decimal 900)\<rparr>,
       storeMeta = Some three_tasks, queueRunning = False, currentTaskPointer = 3,
       currentQueueId = Some 1000, metadata = Some three_tasks, loops = [LTop],
       watches = []\<rparr>"
    by (simp add: paused_at_end_def three_failed_def started_eq sched_simps eval_simps)
  show ?thesis
    unfolding over paused by (simp add: eval_simps)
qed

section \<open>Completion watches\<close>

text \<open>
  Claim C9. A watch whose video became ready and whose download request was rejected goes
  on exactly as one whose download request was accepted: on a stored state it writes
  \<^verbatim>\<open>successCount + 1\<close> and \<^verbatim>\<open>pendingTasks - 1\<close> (not below 0), leaves \<^verbatim>\<open>failCount\<close> as it
  is, and finishes. (Log lines are not part of the state.)
\<close>

theorem download_failure_counts_as_success:
  assumes "k < length (watches sys)" and "watches sys ! k = WWait idx"
    and "store sys = Some st"
  shows "run [EWatch k (VideoReady DownloadFailed), EWatch k wo, EWatch k wo'] sys
           = run [EWatch k (VideoReady DownloadOk), EWatch k wo, EWatch k wo'] sys
    \<and> store (run [EWatch k (VideoReady DownloadFailed), EWatch k wo, EWatch k wo'] sys)
        = Some (st\<lparr>successCount := Some (num_or0 (successCount st) + 1),
                   pendingTasks := Some (max 0 (num_or0 (pendingTasks st) - 1))\<rparr>)
    \<and> watches (run [EWatch k (VideoReady DownloadFailed), EWatch k wo, EWatch k wo'] sys) ! k
        = WDone"
  using assms
  by (simp add: loadQueueState_def updateQueueState_def merge_def no_fields_def orelse_def
      num_or0_def)

theorem download_failure_counts_as_success_witness:
  "(0::nat) < length (watches two_submitted) \<and> watches two_submitted ! 0 = WWait 0
   \<and> store two_submitted = Some two_submitted_state
   \<and> store (run [EWatch 0 (VideoReady DownloadFailed), EWatch 0 GenerationFailed,
                 EWatch 0 GenerationFailed] two_submitted)
       = Some (two_submitted_state\<lparr>successCount := Some 1, pendingTasks := Some 1\<rparr>)"
proof -
  have h1: "(0::nat) < length (watches two_submitted)" by (simp add: two_submitted_eq)
  have h2: "watches two_submitted ! 0 = WWait 0" by (simp add: two_submitted_eq)
  have h3: "store two_submitted = Some two_submitted_state" by (simp add: two_submitted_eq)
  have v: "num_or0 (successCount two_submitted_state) + 1 = 1"
    "max 0 (num_or0 (pendingTasks two_submitted_state) - 1) = 1"
    by (simp_all add: two_submitted_state_def num_or0_def)
  show ?thesis
    using h1 h2 h3 v
      download_failure_counts_as_success [OF h1 h2 h3, of GenerationFailed GenerationFailed]
    by simp
qed

lemma watch_absent_step:
  assumes "store sys = None" and "idle_watch w" and "watch_step wo w sys = (w', sys')"
  shows "sys' = sys \<and> idle_watch w'"
  using assms by (cases w) (auto simp: loadQueueState_def split: watch_outcome.splits)

lemma watches_absent_run:
  assumes "store sys = None" and "list_all idle_watch (watches sys)" and "list_all watch_event evs"
  shows "store (run evs sys) = None \<and> list_all idle_watch (watches (run evs sys))"
  using assms
proof (induction evs arbitrary: sys)
  case Nil
  then show ?case by simp
next
  case (Cons e evs)
  from Cons.prems(3) obtain k wo where e: "e = EWatch k wo" by (cases e) auto
  have "store (exec e sys) = None \<and> list_all idle_watch (watches (exec e sys))"
  proof (cases "k < length (watches sys)")
    case True
    obtain w' sys' where st: "watch_step wo (watches sys ! k) sys = (w', sys')" by fastforce
    have "idle_watch (watches sys ! k)" using Cons.prems(2) True by (simp add: list_all_length)
    from watch_absent_step [OF Cons.prems(1) this st] show ?thesis
      using e True st Cons.prems(1,2) by (simp add: list_all_update)
  next
    case False
    then show ?thesis using e Cons.prems by simp
  qed
  then show ?case using Cons.IH Cons.prems(3) by simp
qed

lemma watch_events_keep_metadata:
  "list_all watch_event evs \<Longrightarrow> storeMeta (run evs s) = storeMeta s"
proof (induction evs arbitrary: s)
  case Nil
  then show ?case by simp
next
  case (Cons e evs)
  from Cons.prems obtain k wo where e: "e = EWatch k wo" by (cases e) auto
  have "storeMeta (exec e s) = storeMeta s"
  proof (cases "k < length (watches s)")
    case True
    obtain w' s' where st: "watch_step wo (watches s ! k) s = (w', s')" by fastforce
    then have "storeMeta s' = storeMeta s"
      by (cases "watches s ! k")
         (auto simp: updateQueueState_def split: watch_outcome.splits option.splits if_splits)
    then show ?thesis using e True st by simp
  next
    case False
    then show ?thesis using e by simp
  qed
  then show ?case using Cons by simp
qed

text \<open>
  Claim C8, as the code has it. After \<^verbatim>\<open>handleClearQueue\<close> has removed the stored state
  and metadata, watches that reach their terminal outcome while storage is empty write
  nothing: storage stays empty whatever their outcomes and order. There is no check of the
  run's identity: a watch that reaches its terminal outcome on a stored state, of whichever
  run, writes \<^verbatim>\<open>pendingTasks - 1\<close> (not below 0) and \<^verbatim>\<open>successCount + 1\<close>, or
  \<^verbatim>\<open>failCount + 1\<close>, into it.
\<close>

theorem watch_terminal_write:
  "(list_all idle_watch (watches sys) \<and> list_all watch_event evs
      \<longrightarrow> store (run evs (handleClearQueue sys)) = None
          \<and> storeMeta (run evs (handleClearQueue sys)) = None)
   \<and> (store sys = Some st \<and> k < length (watches sys) \<and> watches sys ! k = WWait idx
      \<longrightarrow> store (run [EWatch k (VideoReady dl), EWatch k wo] sys)
            = Some (st\<lparr>successCount := Some (num_or0 (successCount st) + 1),
                       pendingTasks := Some (max 0 (num_or0 (pendingTasks st) - 1))\<rparr>)
          \<and> store (run [EWatch k GenerationFailed, EWatch k wo] sys)
            = Some (st\<lparr>pendingTasks := Some (max 0 (num_or0 (pendingTasks st) - 1)),
                       failCount := Some (num_or0 (failCount st) + 1)\<rparr>))"
proof -
  have a: "list_all idle_watch (watches sys) \<and> list_all watch_event evs
      \<longrightarrow> store (run evs (handleClearQueue sys)) = None
          \<and> storeMeta (run evs (handleClearQueue sys)) = None"
  proof
    assume h: "list_all idle_watch (watches sys) \<and> list_all watch_event evs"
    have c: "store (handleClearQueue sys) = None"
      "list_all idle_watch (watches (handleClearQueue sys))"
      using h by (simp_all add: handleClearQueue_def)
    show "store (run evs (handleClearQueue sys)) = None
          \<and> storeMeta (run evs (handleClearQueue sys)) = None"
      using watches_absent_run [OF c] h watch_events_keep_metadata [of evs "handleClearQueue sys"]
      by (simp add: handleClearQueue_def)
  qed
  have b: "store sys = Some st \<and> k < length (watches sys) \<and> watches sys ! k = WWait idx
      \<longrightarrow> store (run [EWatch k (VideoReady dl), EWatch k wo] sys)
            = Some (st\<lparr>successCount := Some (num_or0 (successCount st) + 1),
                       pendingTasks := Some (max 0 (num_or0 (pendingTasks st) - 1))\<rparr>)
          \<and> store (run [EWatch k GenerationFailed, EWatch k wo] sys)
            = Some (st\<lparr>pendingTasks := Some (max 0 (num_or0 (pendingTasks st) - 1)),
                       failCount := Some (num_or0 (failCount st) + 1)\<rparr>)"
    by (simp add: loadQueueState_def updateQueueState_def merge_def no_fields_def orelse_def)
  show ?thesis using a b by blast
qed

theorem watch_terminal_write_witness:
  "list_all idle_watch (watches two_submitted) \<and> list_all watch_event both_watches_finish
   \<and> store (run both_watches_finish (handleClearQueue two_submitted)) = None
   \<and> storeMeta (run both_watches_finish (handleClearQueue two_submitted)) = None
   \<and> store two_submitted = Some two_submitted_state
   \<and> (1::nat) < length (watches two_submitted) \<and> watches two_submitted ! 1 = WWait 1
   \<and> store (run [EWatch 1 GenerationFailed, EWatch 1 GenerationFailed] two_submitted)
       = Some (two_submitted_state\<lparr>pendingTasks := Some 1, failCount := Some 1\<rparr>)"
proof -
  have h1: "list_all idle_watch (watches two_submitted)" by (simp add: two_submitted_eq)
  have h2: "list_all watch_event both_watches_finish"
    by (simp add: both_watches_finish_def)
  have h3: "store two_submitted = Some two_submitted_state" by (simp add: two_submitted_eq)
  have h4: "(1::nat) < length (watches two_submitted)" by (simp add: two_submitted_eq)
  have h5: "watches two_submitted ! 1 = WWait 1" by (simp add: two_submitted_eq)
  have v: "max 0 (num_or0 (pendingTasks two_submitted_state) - 1) = 1"
    "num_or0 (failCount two_submitted_state) + 1 = 1"
    by (simp_all add: two_submitted_state_def num_or0_def)
  show ?thesis
    using h1 h2 h3 h4 h5 v
      watch_terminal_write [of two_submitted both_watches_finish two_submitted_state 1 1
        DownloadOk GenerationFailed]
    by simp
qed

text \<open>
  Claim C8 as stated fails: the watch of a cleared first run, finishing after a second run
  has been started and has submitted its first task, raises the second run's
  \<^verbatim>\<open>successCount\<close> from 0 to 1 and lowers its \<^verbatim>\<open>pendingTasks\<close> from 1 to 0, while the
  second run's own task is still waiting.
\<close>

theorem stale_watch_changes_newer_run:
  "loops second_run = [LExit, LTop] \<and> watches second_run = [WWait 0, WWait 0]
   \<and> currentQueueId second_run = Some 5000
   \<and> map_option successCount (store second_run) = Some (Some 0)
   \<and> stored_pending second_run = 1
   \<and> watches (run stale_watch_finishes second_run) = [WVerify 1, WWait 0]
   \<and> map_option successCount (store (run stale_watch_finishes second_run)) = Some (Some 1)
   \<and> stored_pending (run stale_watch_finishes second_run) = 0"
  by (simp add: second_run_def stale_watch_finishes_def started_eq sched_simps eval_simps)

section \<open>Resuming after a reload\<close>

lemma loop_step_from:
  assumes "stored_index sys = Some j" and "i0 \<le> j" and "pc_from i0 pc"
    and "loop_step oc pc sys = (pc', sys')"
  shows "\<exists>j'. stored_index sys' = Some j' \<and> i0 \<le> j' \<and> pc_from i0 pc'"
proof (cases pc)
  case LTop
  then show ?thesis using assms
    by (auto simp: loadQueueState_def catch_entry_def Let_def stored_index_def
        split: if_splits option.splits)
next
  case LCompleteWrite
  then show ?thesis using assms by (auto simp: Let_def split: if_splits)
next
  case (LExec idx)
  then show ?thesis using assms
    by (auto simp: loadQueueState_def catch_entry_def stored_index_def
        split: exec_outcome.splits option.splits if_splits)
next
  case (LIncWrite idx st)
  then show ?thesis using assms by (auto simp: Let_def)
next
  case (LAdvLoad idx)
  then show ?thesis using assms
    by (auto simp: Let_def loadQueueState_def stored_index_def split: option.splits)
next
  case (LAdvWrite st)
  then show ?thesis using assms by (auto split: option.splits)
next
  case (LTaskFailWrite st)
  then show ?thesis using assms by (auto simp: catch_entry_def split: if_splits)
next
  case LCatchLoad
  then show ?thesis using assms
    by (auto simp: loadQueueState_def stored_index_def num_or0_def split: option.splits)
next
  case (LCatchWrite st)
  then show ?thesis using assms by (auto split: option.splits)
next
  case LTrailWrite
  then show ?thesis using assms by auto
next
  case LExit
  then show ?thesis using assms by auto
qed

lemma exec_from:
  assumes inv: "from_inv i0 sys" and e: "single_run_event e"
  shows "from_inv i0 (exec e sys)"
proof -
  from inv obtain j where j: "stored_index sys = Some j" "i0 \<le> j"
    and ls: "list_all (pc_from i0) (loops sys)"
    by (auto simp: from_inv_def split: option.splits)
  show ?thesis
  proof (cases e)
    case (ELoop k oc)
    show ?thesis
    proof (cases "k < length (loops sys)")
      case True
      obtain pc' sys' where st: "loop_step oc (loops sys ! k) sys = (pc', sys')" by fastforce
      have ok: "pc_from i0 (loops sys ! k)" using ls True by (simp add: list_all_length)
      from loop_step_from [OF j ok st] obtain j'
        where j': "stored_index sys' = Some j'" "i0 \<le> j'" "pc_from i0 pc'" by blast
      have "exec e sys = sys'\<lparr>loops := (loops sys')[k := pc']\<rparr>"
        using ELoop True st by simp
      then show ?thesis using j' ls loop_step_loops [OF st]
        by (simp add: from_inv_def list_all_update)
    next
      case False
      then show ?thesis using ELoop inv by simp
    qed
  next
    case (EWatch k wo)
    show ?thesis
    proof (cases "k < length (watches sys)")
      case True
      obtain w' sys' where st: "watch_step wo (watches sys ! k) sys = (w', sys')" by fastforce
      have "exec e sys = sys'\<lparr>watches := (watches sys')[k := w']\<rparr>"
        using EWatch True st by simp
      then show ?thesis using watch_step_index [OF st] j ls by (simp add: from_inv_def)
    next
      case False
      then show ?thesis using EWatch inv by simp
    qed
  next
    case EPause
    then show ?thesis using j ls by (simp add: handlePauseQueue_def from_inv_def)
  next
    case EClear
    then show ?thesis using e by simp
  next
    case (EStart md t1 t2 modeOk)
    then show ?thesis using e by simp
  qed
qed

lemma run_from:
  "from_inv i0 sys \<Longrightarrow> list_all single_run_event evs \<Longrightarrow> from_inv i0 (run evs sys)"
  by (induction evs arbitrary: sys) (simp_all add: exec_from)

lemma pc_from_task:
  "pc_from i0 pc \<Longrightarrow> (case task_in_work pc of None \<Rightarrow> True | Some idx \<Rightarrow> i0 \<le> idx)"
  by (cases pc) simp_all

lemma resumed_from_stored_index:
  assumes "store sys = Some st" and "num_or0 (totalTasks st) \<noteq> 0"
    and "storeMeta sys = Some md" and "md_promptList md \<noteq> None"
    and "running st = Some True" and "paused st \<noteq> Some True"
    and "currentIndex st = Some i"
    and "js_lt (currentIndex st) (totalTasks st) \<or> 0 < num_or0 (pendingTasks st)"
  shows "from_inv i (initializeAutoResume (reload sys))"
  using assms
  by (auto simp: initializeAutoResume_def reload_def loadQueueState_def truthy_def
      from_inv_def stored_index_def)

text \<open>
  Claim C5, as the code has it. \<^verbatim>\<open>initializeAutoResume\<close> does nothing when no state is
  stored, when \<^verbatim>\<open>totalTasks\<close> is missing or 0, and when the stored metadata or its
  \<^verbatim>\<open>promptList\<close> is missing. With metadata stored, \<^verbatim>\<open>running\<close> set and \<^verbatim>\<open>paused\<close> not set:
  if \<^verbatim>\<open>currentIndex < totalTasks\<close> or \<^verbatim>\<open>pendingTasks > 0\<close> it leaves storage untouched,
  takes the stored metadata and index into memory and starts the loop; otherwise it stores
  \<^verbatim>\<open>running = false\<close>, \<^verbatim>\<open>paused = false\<close>, \<^verbatim>\<open>pendingTasks = 0\<close> and starts nothing. The
  first submission of a resumed loop is the one at the stored index. After a reload and a
  resume, whatever the page does to each submission and however the steps of the loop, of
  the watches and a pause are ordered, the stored index stays at or above the index stored
  at the reload, and the loop works on no task below it.
\<close>

theorem auto_resume_behaviour:
  "(store sys = None \<longrightarrow> initializeAutoResume sys = sys)
   \<and> (store sys = Some st \<and> num_or0 (totalTasks st) = 0 \<longrightarrow> initializeAutoResume sys = sys)
   \<and> (store sys = Some st \<and> storeMeta sys = None \<longrightarrow> initializeAutoResume sys = sys)
   \<and> (store sys = Some st \<and> storeMeta sys = Some md \<and> md_promptList md = None
        \<longrightarrow> initializeAutoResume sys = sys)
   \<and> (store sys = Some st \<and> num_or0 (totalTasks st) \<noteq> 0 \<and> storeMeta sys = Some md
        \<and> md_promptList md \<noteq> None \<and> running st = Some True \<and> paused st \<noteq> Some True
        \<longrightarrow> (if js_lt (currentIndex st) (totalTasks st) \<or> 0 < num_or0 (pendingTasks st)
             then initializeAutoResume sys =
                    sys\<lparr>metadata := Some md, queueRunning := True,
                        currentTaskPointer := num_or0 (currentIndex st),
                        loops := loops sys @ [LTop]\<rparr>
             else initializeAutoResume sys =
                    sys\<lparr>store := Some (st\<lparr>running := Some False, paused := Some False,
                                          pendingTasks := Some 0\<rparr>),
                        queueRunning := False\<rparr>))
   \<and> (store sys = Some st \<and> totalTasks st = Some t \<and> currentIndex st = Some i
        \<and> 0 \<le> i \<and> i < t \<and> storeMeta sys = Some md \<and> md_promptList md = Some ps
        \<and> md_totalTasks md = t \<and> nat i < length ps
        \<and> running st = Some True \<and> paused st \<noteq> Some True
        \<and> num_or0 (pendingTasks st) < QUEUE_LIMIT
        \<longrightarrow> fst (loop_step oc LTop (initializeAutoResume sys)) = LExec i)
   \<and> (store sys = Some st \<and> num_or0 (totalTasks st) \<noteq> 0 \<and> storeMeta sys = Some md
        \<and> md_promptList md \<noteq> None \<and> running st = Some True \<and> paused st \<noteq> Some True
        \<and> currentIndex st = Some i
        \<and> (js_lt (currentIndex st) (totalTasks st) \<or> 0 < num_or0 (pendingTasks st))
        \<and> list_all single_run_event evs
        \<longrightarrow> (\<exists>j. stored_index (run evs (initializeAutoResume (reload sys))) = Some j \<and> i \<le> j)
            \<and> list_all (\<lambda>pc. case task_in_work pc of None \<Rightarrow> True | Some idx \<Rightarrow> i \<le> idx)
                 (loops (run evs (initializeAutoResume (reload sys)))))"
proof -
  have exhausted: "merge st (no_fields\<lparr>running := Some False, paused := Some False,
                    pendingTasks := Some 0\<rparr>)
        = st\<lparr>running := Some False, paused := Some False, pendingTasks := Some 0\<rparr>"
    by (simp add: merge_def no_fields_def)
  have first: "(store sys = None \<longrightarrow> initializeAutoResume sys = sys)
   \<and> (store sys = Some st \<and> num_or0 (totalTasks st) = 0 \<longrightarrow> initializeAutoResume sys = sys)
   \<and> (store sys = Some st \<and> storeMeta sys = None \<longrightarrow> initializeAutoResume sys = sys)
   \<and> (store sys = Some st \<and> storeMeta sys = Some md \<and> md_promptList md = None
        \<longrightarrow> initializeAutoResume sys = sys)
   \<and> (store sys = Some st \<and> num_or0 (totalTasks st) \<noteq> 0 \<and> storeMeta sys = Some md
        \<and> md_promptList md \<noteq> None \<and> running st = Some True \<and> paused st \<noteq> Some True
        \<longrightarrow> (if js_lt (currentIndex st) (totalTasks st) \<or> 0 < num_or0 (pendingTasks st)
             then initializeAutoResume sys =
                    sys\<lparr>metadata := Some md, queueRunning := True,
                        currentTaskPointer := num_or0 (currentIndex st),
                        loops := loops sys @ [LTop]\<rparr>
             else initializeAutoResume sys =
                    sys\<lparr>store := Some (st\<lparr>running := Some False, paused := Some False,
                                          pendingTasks := Some 0\<rparr>),
                        queueRunning := False\<rparr>))
   \<and> (store sys = Some st \<and> totalTasks st = Some t \<and> currentIndex st = Some i
        \<and> 0 \<le> i \<and> i < t \<and> storeMeta sys = Some md \<and> md_promptList md = Some ps
        \<and> md_totalTasks md = t \<and> nat i < length ps
        \<and> running st = Some True \<and> paused st \<noteq> Some True
        \<and> num_or0 (pendingTasks st) < QUEUE_LIMIT
        \<longrightarrow> fst (loop_step oc LTop (initializeAutoResume sys)) = LExec i)"
    by (auto simp: initializeAutoResume_def loadQueueState_def updateQueueState_def truthy_def
        exhausted js_lt_def js_ge_def num_or0_def Let_def processTask_throws_early_def
        split: option.splits)
  have never_below:
    "(\<exists>j. stored_index (run evs (initializeAutoResume (reload sys))) = Some j \<and> i \<le> j)
     \<and> list_all (\<lambda>pc. case task_in_work pc of None \<Rightarrow> True | Some idx \<Rightarrow> i \<le> idx)
          (loops (run evs (initializeAutoResume (reload sys))))"
    if h: "store sys = Some st" "num_or0 (totalTasks st) \<noteq> 0" "storeMeta sys = Some md"
      "md_promptList md \<noteq> None" "running st = Some True" "paused st \<noteq> Some True"
      "currentIndex st = Some i"
      "js_lt (currentIndex st) (totalTasks st) \<or> 0 < num_or0 (pendingTasks st)"
      and evs: "list_all single_run_event evs"
  proof -
    have "from_inv i (run evs (initializeAutoResume (reload sys)))"
      using run_from [OF resumed_from_stored_index [OF h] evs] .
    then show ?thesis
      by (auto simp: from_inv_def list_all_iff pc_from_task split: option.splits)
  qed
  show ?thesis using first never_below by blast
qed

theorem auto_resume_behaviour_witness:
  "store (interrupted (Some ten_tasks)) = Some interrupted_state
   \<and> initializeAutoResume (interrupted (Some ten_tasks))
       = (interrupted (Some ten_tasks))
           \<lparr>metadata := Some ten_tasks, queueRunning := True, currentTaskPointer := 3,
            loops := [LTop]\<rparr>
   \<and> store (initializeAutoResume (interrupted (Some ten_tasks))) = Some interrupted_state
   \<and> fst (loop_step SubmitOk LTop (initializeAutoResume (interrupted (Some ten_tasks))))
       = LExec 3
   \<and> list_all single_run_event resumed_steps
   \<and> stored_index (run resumed_steps (initializeAutoResume (interrupted (Some ten_tasks))))
       = Some 4
   \<and> loops (run resumed_steps (initializeAutoResume (interrupted (Some ten_tasks))))
       = [LExec 4]
   \<and> watches (run resumed_steps (initializeAutoResume (interrupted (Some ten_tasks))))
       = [WWait 3]
   \<and> (\<exists>j. stored_index (run resumed_steps (initializeAutoResume (interrupted (Some ten_tasks))))
            = Some j \<and> 3 \<le> j)"
proof -
  let ?sys = "interrupted (Some ten_tasks)"
  have s: "store ?sys = Some interrupted_state" "storeMeta ?sys = Some ten_tasks"
    "loops ?sys = []" "reload ?sys = ?sys"
    by (simp_all add: interrupted_def reload_def)
  have st: "totalTasks interrupted_state = Some 10" "currentIndex interrupted_state = Some 3"
    "running interrupted_state = Some True" "paused interrupted_state \<noteq> Some True"
    "num_or0 (pendingTasks interrupted_state) = 2"
    "num_or0 (totalTasks interrupted_state) \<noteq> 0"
    "js_lt (currentIndex interrupted_state) (totalTasks interrupted_state)"
    by (simp_all add: interrupted_state_def num_or0_def js_lt_def)
  have md: "md_promptList ten_tasks = Some (replicate 10 (js ''p''))" "md_totalTasks ten_tasks = 10"
    "md_promptList ten_tasks \<noteq> None"
    by (simp_all add: ten_tasks_def)
  have evs: "list_all single_run_event resumed_steps"
    by (simp add: resumed_steps_def sched_simps)
  note r = auto_resume_behaviour [where sys = ?sys and st = interrupted_state
      and md = ten_tasks and t = 10 and i = 3 and ps = "replicate 10 (js ''p'')"
      and oc = SubmitOk and evs = resumed_steps]
  have h5: "store ?sys = Some interrupted_state \<and> num_or0 (totalTasks interrupted_state) \<noteq> 0
      \<and> storeMeta ?sys = Some ten_tasks \<and> md_promptList ten_tasks \<noteq> None
      \<and> running interrupted_state = Some True \<and> paused interrupted_state \<noteq> Some True"
    using s st md by blast
  have h6: "store ?sys = Some interrupted_state \<and> totalTasks interrupted_state = Some 10
      \<and> currentIndex interrupted_state = Some 3 \<and> (0::int) \<le> 3 \<and> (3::int) < 10
      \<and> storeMeta ?sys = Some ten_tasks
      \<and> md_promptList ten_tasks = Some (replicate 10 (js ''p''))
      \<and> md_totalTasks ten_tasks = 10 \<and> nat 3 < length (replicate 10 (js ''p''))
      \<and> running interrupted_state = Some True \<and> paused interrupted_state \<noteq> Some True
      \<and> num_or0 (pendingTasks interrupted_state) < QUEUE_LIMIT"
    using s st md by (simp add: QUEUE_LIMIT_def)
  have h7: "store ?sys = Some interrupted_state \<and> num_or0 (totalTasks interrupted_state) \<noteq> 0
      \<and> storeMeta ?sys = Some ten_tasks \<and> md_promptList ten_tasks \<noteq> None
      \<and> running interrupted_state = Some True \<and> paused interrupted_state \<noteq> Some True
      \<and> currentIndex interrupted_state = Some 3
      \<and> (js_lt (currentIndex interrupted_state) (totalTasks interrupted_state)
          \<or> 0 < num_or0 (pendingTasks interrupted_state))
      \<and> list_all single_run_event resumed_steps"
    using s st md evs by blast
  have "initializeAutoResume ?sys
       = ?sys\<lparr>metadata := Some ten_tasks, queueRunning := True,
               currentTaskPointer := num_or0 (currentIndex interrupted_state),
               loops := loops ?sys @ [LTop]\<rparr>"
    using r h5 st(7) by presburger
  then have resumed: "initializeAutoResume ?sys
       = ?sys\<lparr>metadata := Some ten_tasks, queueRunning := True, currentTaskPointer := 3,
               loops := [LTop]\<rparr>"
    using s(3) st(2) by (simp add: num_or0_def)
  have first: "fst (loop_step SubmitOk LTop (initializeAutoResume ?sys)) = LExec 3"
    using r h6 by blast
  have "\<exists>j. stored_index (run resumed_steps (initializeAutoResume (reload ?sys))) = Some j
        \<and> 3 \<le> j"
    using r h7 by blast
  then have below: "\<exists>j. stored_index (run resumed_steps (initializeAutoResume ?sys)) = Some j
        \<and> 3 \<le> j"
    using s(4) by simp
  have v: "stored_index (run resumed_steps (initializeAutoResume ?sys)) = Some 4"
    "loops (run resumed_steps (initializeAutoResume ?sys)) = [LExec 4]"
    "watches (run resumed_steps (initializeAutoResume ?sys)) = [WWait 3]"
    unfolding resumed
    by (simp_all add: resumed_steps_def interrupted_def reload_def initial_def
        interrupted_state_def sched_simps eval_simps)
  show ?thesis using s resumed first evs below v by simp
qed

text \<open>
  Claim C5 as stated fails: with the interrupted state stored (running, not paused, index 3
  of 10, two pending) but no metadata stored, nothing is resumed.
\<close>

theorem auto_resume_needs_metadata:
  "initializeAutoResume (interrupted None) = interrupted None
   \<and> loops (initializeAutoResume (interrupted None)) = []
   \<and> \<not> queueRunning (initializeAutoResume (interrupted None))
   \<and> map_option running (store (interrupted None)) = Some (Some True)
   \<and> map_option paused (store (interrupted None)) = Some (Some False)
   \<and> map_option currentIndex (store (interrupted None)) = Some (Some 3)
   \<and> map_option totalTasks (store (interrupted None)) = Some (Some 10)
   \<and> map_option pendingTasks (store (interrupted None)) = Some (Some 2)"
  by (simp add: initializeAutoResume_def interrupted_def reload_def initial_def
      interrupted_state_def loadQueueState_def num_or0_def)

section \<open>Overlapping calls of updateQueueState\<close>

text \<open>
  A call that runs alone stores what the one-step \<open>updateQueueState\<close> stores, and a call made
  while another is under way waits for it: two overlapping calls take effect one after the
  other.
\<close>

lemma lone_update_is_one_step:
  assumes "u_updating env = None" and "u_store env = store sys"
  shows "u_store (snd (run_updates [0, 0, 0] ([UCall updates], env)))
           = store (updateQueueState updates sys)"
  using assms by (simp add: enter_update_def updateQueueState_def loadQueueState_def)

lemma second_call_waits_for_first:
  assumes "u_updating env = None" and "u_store env = store sys"
  shows "u_store (snd (run_updates [0, 1, 0, 0, 1, 1, 1] ([UCall a, UCall b], env)))
           = store (updateQueueState b (updateQueueState a sys))"
  using assms by (simp add: enter_update_def updateQueueState_def loadQueueState_def)

text \<open>
  A property of the stored state that every merge preserves holds however the calls
  overlap. In particular, if neither the stored state nor any update object holds a
  negative \<^verbatim>\<open>pendingTasks\<close>, none is ever stored; and if the stored \<^verbatim>\<open>currentIndex\<close> and
  that of every update object that sets one are at least \<open>i0\<close>, the stored index stays at
  least \<open>i0\<close>.
\<close>

lemma update_step_keeps:
  assumes m: "\<And>c u. P c \<Longrightarrow> Q u \<Longrightarrow> P (merge c u)"
    and s: "u_store env = Some c" "P c" and ok: "call_ok P Q pc"
    and st: "update_step me pc env = (pc', env')"
  shows "(\<exists>c'. u_store env' = Some c' \<and> P c') \<and> call_ok P Q pc'"
  using s ok st m
  by (cases pc) (auto simp: enter_update_def split: option.splits if_splits)

lemma run_updates_keep:
  assumes m: "\<And>c u. P c \<Longrightarrow> Q u \<Longrightarrow> P (merge c u)"
  shows "u_store env = Some c \<Longrightarrow> P c \<Longrightarrow> list_all (call_ok P Q) calls
     \<Longrightarrow> \<exists>c'. u_store (snd (run_updates ks (calls, env))) = Some c' \<and> P c'"
proof (induction ks arbitrary: calls env c)
  case Nil
  then show ?case by simp
next
  case (Cons k ks)
  show ?case
  proof (cases "k < length calls")
    case True
    obtain pc' env' where st: "update_step k (calls ! k) env = (pc', env')" by fastforce
    have ok: "call_ok P Q (calls ! k)" using Cons.prems(3) True by (simp add: list_all_length)
    from update_step_keeps [of P Q, OF m Cons.prems(1,2) ok st]
    obtain c' where c': "u_store env' = Some c'" "P c'" and pc': "call_ok P Q pc'" by blast
    have "list_all (call_ok P Q) (calls[k := pc'])"
      using Cons.prems(3) pc' by (simp add: list_all_update)
    from Cons.IH [OF c' this] show ?thesis using True st by simp
  next
    case False
    then show ?thesis using Cons.IH [OF Cons.prems] by simp
  qed
qed

lemma overlapping_updates_keep_bounds:
  assumes "u_store env = Some c"
  shows "0 \<le> num_or0 (pendingTasks c)
      \<Longrightarrow> list_all (call_ok (\<lambda>st. 0 \<le> num_or0 (pendingTasks st))
                    (\<lambda>u. 0 \<le> num_or0 (pendingTasks u))) calls
      \<Longrightarrow> \<exists>c'. u_store (snd (run_updates ks (calls, env))) = Some c'
             \<and> 0 \<le> num_or0 (pendingTasks c')"
    and "(\<exists>j. currentIndex c = Some j \<and> i0 \<le> j)
      \<Longrightarrow> list_all (call_ok (\<lambda>st. \<exists>j. currentIndex st = Some j \<and> i0 \<le> j)
                    (\<lambda>u. case currentIndex u of None \<Rightarrow> True | Some j \<Rightarrow> i0 \<le> j)) calls
      \<Longrightarrow> \<exists>c'. u_store (snd (run_updates ks (calls, env))) = Some c'
             \<and> (\<exists>j. currentIndex c' = Some j \<and> i0 \<le> j)"
proof -
  have a: "0 \<le> num_or0 (pendingTasks (merge c u))"
    if "0 \<le> num_or0 (pendingTasks c)" "0 \<le> num_or0 (pendingTasks u)" for c u
    using that by (cases "pendingTasks u") (simp_all add: num_or0_def)
  have b: "\<exists>j. currentIndex (merge c u) = Some j \<and> i0 \<le> j"
    if "\<exists>j. currentIndex c = Some j \<and> i0 \<le> j"
      "case currentIndex u of None \<Rightarrow> True | Some j \<Rightarrow> i0 \<le> j" for c u
    using that by (cases "currentIndex u") simp_all
  show "0 \<le> num_or0 (pendingTasks c)
      \<Longrightarrow> list_all (call_ok (\<lambda>st. 0 \<le> num_or0 (pendingTasks st))
                    (\<lambda>u. 0 \<le> num_or0 (pendingTasks u))) calls
      \<Longrightarrow> \<exists>c'. u_store (snd (run_updates ks (calls, env))) = Some c'
             \<and> 0 \<le> num_or0 (pendingTasks c')"
    using run_updates_keep [of "\<lambda>st. 0 \<le> num_or0 (pendingTasks st)"
        "\<lambda>u. 0 \<le> num_or0 (pendingTasks u)", OF a assms] by blast
  show "(\<exists>j. currentIndex c = Some j \<and> i0 \<le> j)
      \<Longrightarrow> list_all (call_ok (\<lambda>st. \<exists>j. currentIndex st = Some j \<and> i0 \<le> j)
                    (\<lambda>u. case currentIndex u of None \<Rightarrow> True | Some j \<Rightarrow> i0 \<le> j)) calls
      \<Longrightarrow> \<exists>c'. u_store (snd (run_updates ks (calls, env))) = Some c'
             \<and> (\<exists>j. currentIndex c' = Some j \<and> i0 \<le> j)"
    using run_updates_keep [of "\<lambda>st. \<exists>j. currentIndex st = Some j \<and> i0 \<le> j"
        "\<lambda>u. case currentIndex u of None \<Rightarrow> True | Some j \<Rightarrow> i0 \<le> j", OF b assms]
    by blast
qed

text \<open>
  Claim C6 at a concrete schedule. Three tasks are submitted and the stored index is 2. The
  first watch's call of \<^verbatim>\<open>updateQueueState\<close> is under way when the loop calls it with
  \<^verbatim>\<open>currentIndex = 3\<close> and the second watch calls it with its counts; both wait for the
  first call and then go on together, each reading the state the first call stored. The
  loop's call stores \<^verbatim>\<open>currentIndex = 3\<close>; the second watch's call then stores the state it
  read with its counts spread over it, and the stored \<^verbatim>\<open>currentIndex\<close> is 2 again.
\<close>

theorem overlapping_updates_move_index_back:
  "store three_calls_due = Some three_submitted_state
   \<and> loops three_calls_due = [LAdvWrite (three_submitted_state\<lparr>currentIndex := Some 3\<rparr>)]
   \<and> watches three_calls_due = [WSuccWrite 1 2, WSuccWrite 1 2, WWait 2]
   \<and> map_option currentIndex
        (u_store (snd (run_updates overlap_until_loop_stored (due_calls, due_env))))
       = Some (Some 3)
   \<and> map_option currentIndex (u_store (snd (run_updates overlap_complete (due_calls, due_env))))
       = Some (Some 2)
   \<and> fst (run_updates overlap_complete (due_calls, due_env))
       = [UReturned, UReturned, UReturned]"
proof -
  have due: "store three_calls_due = Some three_submitted_state
      \<and> loops three_calls_due = [LAdvWrite (three_submitted_state\<lparr>currentIndex := Some 3\<rparr>)]
      \<and> watches three_calls_due = [WSuccWrite 1 2, WSuccWrite 1 2, WWait 2]"
    by (simp add: three_calls_due_def three_submitted_state_def started_eq sched_simps
        eval_simps)
  have waiting: "fst (run_updates [0, 1, 2] (due_calls, due_env))
      = [UReading (no_fields\<lparr>successCount := Some 1, pendingTasks := Some 2\<rparr>),
         UWaiting 0 (three_submitted_state\<lparr>currentIndex := Some 3\<rparr>),
         UWaiting 0 (no_fields\<lparr>successCount := Some 1, pendingTasks := Some 2\<rparr>)]"
    by (simp add: due_calls_def due_env_def enter_update_def)
  have released: "map (\<lambda>pc. case pc of UReading u \<Rightarrow> True | _ \<Rightarrow> False)
        (fst (run_updates [0, 1, 2, 0, 0, 1, 2] (due_calls, due_env)))
      = [False, True, True]"
    by (simp add: due_calls_def due_env_def enter_update_def)
  have loop_stored: "map_option currentIndex
        (u_store (snd (run_updates overlap_until_loop_stored (due_calls, due_env))))
      = Some (Some 3)"
    by (simp add: three_submitted_state_def due_calls_def due_env_def
        overlap_until_loop_stored_def enter_update_def merge_def no_fields_def orelse_def)
  have watch_stored: "map_option currentIndex
        (u_store (snd (run_updates overlap_complete (due_calls, due_env))))
      = Some (Some 2)
      \<and> fst (run_updates overlap_complete (due_calls, due_env))
          = [UReturned, UReturned, UReturned]"
    by (simp add: three_submitted_state_def due_calls_def due_env_def
        overlap_until_loop_stored_def overlap_complete_def enter_update_def merge_def
        no_fields_def orelse_def)
  show ?thesis using due loop_stored watch_stored by simp
qed

section \<open>Races and repeated starts\<close>

text \<open>
  Claim C1 at a concrete schedule: two tasks are submitted and \<^verbatim>\<open>pendingTasks\<close> is 2; both
  watches see their video and read the state before either writes. Each writes
  \<^verbatim>\<open>pendingTasks = 1\<close> and \<^verbatim>\<open>successCount = 1\<close>: after two completions the stored pending
  count is 1, not 0, and the stored success count is 1, not 2.
\<close>

theorem concurrent_completions_lose_an_update:
  "stored_pending two_submitted = 2
   \<and> watches two_submitted = [WWait 0, WWait 1]
   \<and> watches (run both_watches_finish two_submitted) = [WDone, WDone]
   \<and> stored_pending (run both_watches_finish two_submitted) = 1
   \<and> map_option successCount (store (run both_watches_finish two_submitted)) = Some (Some 1)"
proof -
  let ?ready = "VideoReady DownloadOk"
  have before: "stored_pending two_submitted = 2"
    "watches two_submitted = [WWait 0, WWait 1]"
    by (simp_all add: two_submitted_eq two_submitted_state_def stored_pending_def num_or0_def)
  have both_read: "watches (run [EWatch 0 ?ready, EWatch 1 ?ready] two_submitted)
      = [WSuccWrite 1 1, WSuccWrite 1 1]"
    by (simp add: two_submitted_eq two_submitted_state_def eval_simps)
  have first_wrote: "stored_pending (run [EWatch 0 ?ready, EWatch 1 ?ready, EWatch 0 ?ready]
        two_submitted) = 1"
    by (simp add: two_submitted_eq two_submitted_state_def eval_simps)
  have after: "watches (run both_watches_finish two_submitted) = [WDone, WDone]
      \<and> stored_pending (run both_watches_finish two_submitted) = 1
      \<and> map_option successCount (store (run both_watches_finish two_submitted))
          = Some (Some 1)"
    by (simp add: both_watches_finish_def two_submitted_eq two_submitted_state_def eval_simps)
  show ?thesis using before after by simp
qed

text \<open>
  Claim C2 at a concrete run: three tasks, every submission fails inside \<^verbatim>\<open>processTask\<close>.
  The loop ends completed with \<^verbatim>\<open>currentIndex = 3\<close>, \<^verbatim>\<open>successCount = 0\<close>,
  \<^verbatim>\<open>pendingTasks = 0\<close>, \<^verbatim>\<open>running = false\<close>, and with \<^verbatim>\<open>failCount = 6\<close>: the \<^verbatim>\<open>catch\<close> of
  \<^verbatim>\<open>processTask\<close> and the \<^verbatim>\<open>catch\<close> of \<^verbatim>\<open>processQueue\<close> each count the same failure.
\<close>

theorem failed_submissions_counted_twice:
  "map_option failCount (store (run (replicate 5 (ELoop 0 ExecFail)) started)) = Some (Some 2)
   \<and> stored_index (run (replicate 5 (ELoop 0 ExecFail)) started) = Some 1
   \<and> loops (run all_fail started) = [LExit] \<and> watches (run all_fail started) = []
   \<and> map_option failCount (store (run all_fail started)) = Some (Some 6)
   \<and> map_option successCount (store (run all_fail started)) = Some (Some 0)
   \<and> stored_index (run all_fail started) = Some 3
   \<and> stored_total (run all_fail started) = Some 3
   \<and> stored_pending (run all_fail started) = 0
   \<and> map_option running (store (run all_fail started)) = Some (Some False)
   \<and> map_option paused (store (run all_fail started)) = Some (Some False)"
proof -
  let ?fail = "ELoop 0 ExecFail"
  have in_task: "loops (run [?fail] started) = [LExec 0]"
    by (simp add: started_eq eval_simps)
  have task_catch: "loops (run [?fail, ?fail] started)
      = [LTaskFailWrite (the (store started))]"
    by (simp add: started_eq eval_simps)
  have counted_once: "map_option failCount (store (run [?fail, ?fail, ?fail] started))
        = Some (Some 1)
      \<and> loops (run [?fail, ?fail, ?fail] started) = [LCatchLoad]"
    by (simp add: started_eq eval_simps)
  have first_lap: "map_option failCount (store (run (replicate 5 ?fail) started))
        = Some (Some 2)
      \<and> stored_index (run (replicate 5 ?fail) started) = Some 1"
    by (simp add: started_eq sched_simps eval_simps)
  have whole: "loops (run all_fail started) = [LExit] \<and> watches (run all_fail started) = []
      \<and> store (run all_fail started)
          = Some \<lparr>totalTasks = Some 3, currentIndex = Some 3, running = Some False,
                  paused = Some False, successCount = Some 0, failCount = Some 6,
                  pendingTasks = Some 0, flowMode = Some (js ''m''),
                  cropMode = Some (js ''c''), createdAt = Some 1001,
                  queueId = Some (decimal 900)\<rparr>"
    by (simp add: all_fail_def started_eq sched_simps eval_simps)
  from whole have "map_option failCount (store (run all_fail started)) = Some (Some 6)"
    "map_option successCount (store (run all_fail started)) = Some (Some 0)"
    "stored_index (run all_fail started) = Some 3"
    "stored_total (run all_fail started) = Some 3"
    "stored_pending (run all_fail started) = 0"
    "map_option running (store (run all_fail started)) = Some (Some False)"
    "map_option paused (store (run all_fail started)) = Some (Some False)"
    by (simp_all add: stored_index_def stored_total_def stored_pending_def num_or0_def)
  then show ?thesis using first_lap whole by simp
qed

text \<open>
  Claim C4 at a concrete schedule: a second \<^verbatim>\<open>handleStartQueue\<close> runs from beginning to end
  while the loop of the first is inside \<^verbatim>\<open>processTask(0)\<close>. The flag is set again before
  the first loop looks at it, so both loops go on: the second enters \<^verbatim>\<open>processTask(0)\<close>
  too, and the first advances to \<^verbatim>\<open>processTask(1)\<close>.
\<close>

theorem second_start_leaves_two_loops:
  "loops started = [LTop]
   \<and> loops (run double_start started) = [LExec 1, LExec 0]
   \<and> queueRunning (run double_start started)
   \<and> active_loops (run double_start started) = 2"
proof -
  let ?second = "EStart three_tasks 5000 5001 True"
  have one: "loops started = [LTop]"
    by (simp add: started_eq)
  have in_task: "loops (run [ELoop 0 SubmitOk] started) = [LExec 0]"
    by (simp add: started_eq eval_simps)
  have restarted: "loops (run [ELoop 0 SubmitOk, ?second] started) = [LExec 0, LTop]
      \<and> queueRunning (run [ELoop 0 SubmitOk, ?second] started)"
    by (simp add: started_eq eval_simps)
  have both_in_task: "loops (run [ELoop 0 SubmitOk, ?second, ELoop 1 SubmitOk] started)
      = [LExec 0, LExec 0]"
    by (simp add: started_eq eval_simps)
  have final: "loops (run double_start started) = [LExec 1, LExec 0]
      \<and> queueRunning (run double_start started)"
    by (simp add: double_start_def started_eq sched_simps eval_simps)
  then have "active_loops (run double_start started) = 2"
    by (simp add: active_loops_def)
  then show ?thesis using one final by simp
qed

text \<open>
  Claim C7 at two concrete schedules. Ten tasks, and a second start while the first loop is
  inside \<^verbatim>\<open>processTask(0)\<close>: the second loop submits three tasks and passes the admission
  check at a pending count of 3, which no longer covers the submission the first loop has
  in work; both store their count, and \<^verbatim>\<open>pendingTasks\<close> is 5 with five tasks in flight,
  above \<^verbatim>\<open>QUEUE_LIMIT = 4\<close>. And with one loop and one task in flight: the watch of that
  task and the loop, which has submitted the next task, both read a count of 1; the watch
  stores 0 and the loop stores 1 + 1: one submission takes the stored count from 0 to 2.
\<close>

theorem two_loops_exceed_limit:
  "stored_pending started_ten = 0 \<and> loops started_ten = [LTop] \<and> QUEUE_LIMIT = 4
   \<and> active_loops (run two_loops_submit started_ten) = 2
   \<and> stored_pending (run two_loops_submit started_ten) = 5
   \<and> watches (run two_loops_submit started_ten)
       = [WWait 0, WWait 1, WWait 2, WWait 0, WWait 3]
   \<and> QUEUE_LIMIT < stored_pending (run two_loops_submit started_ten)
   \<and> stored_pending one_submitted = 1
   \<and> watches one_submitted = [WWait 0]
   \<and> stored_pending (run (take 4 submission_races_completion) one_submitted) = 0
   \<and> stored_pending (run submission_races_completion one_submitted) = 2
   \<and> watches (run submission_races_completion one_submitted) = [WVerify 1, WWait 1]"
proof -
  let ?second = "EStart ten_tasks 5000 5001 True"
  let ?admitted = "[ELoop 0 SubmitOk, ?second] @ submit_one 1 @ submit_one 1 @ submit_one 1
      @ [ELoop 1 SubmitOk]"
  have ten: "started_ten =
      \<lparr>store = Some \<lparr>totalTasks = Some 10, currentIndex = Some 0, running = Some True,
                      paused = Some False, successCount = Some 0, failCount = Some 0,
                      pendingTasks = Some 0, flowMode = Some (js ''m''),
                      cropMode = Some (js ''c''), createdAt = Some 1001,
                      queueId = Some (decimal 900)\<rparr>,
       storeMeta = Some ten_tasks, queueRunning = True, currentTaskPointer = 0,
       currentQueueId = Some 1000, metadata = Some ten_tasks, loops = [LTop],
       watches = []\<rparr>"
    by (simp add: started_ten_def handleStartQueue_eq popup_saveState_def initial_def
        ten_tasks_def)
  have both_admitted: "loops (run ?admitted started_ten) = [LExec 0, LExec 3]
      \<and> stored_pending (run ?admitted started_ten) = 3"
    unfolding ten by (simp add: sched_simps eval_simps)
  have first_stored: "stored_pending (run (?admitted @ [ELoop 0 SubmitOk, ELoop 0 SubmitOk])
        started_ten) = 4"
    unfolding ten by (simp add: sched_simps eval_simps)
  have final: "active_loops (run two_loops_submit started_ten) = 2
      \<and> stored_pending (run two_loops_submit started_ten) = 5
      \<and> watches (run two_loops_submit started_ten)
          = [WWait 0, WWait 1, WWait 2, WWait 0, WWait 3]"
    unfolding ten by (simp add: two_loops_submit_def sched_simps eval_simps)
  have one: "one_submitted =
      \<lparr>store = Some (two_submitted_state\<lparr>currentIndex := Some 1, pendingTasks := Some 1\<rparr>),
       storeMeta = Some three_tasks, queueRunning = True, currentTaskPointer = 1,
       currentQueueId = Some 1000, metadata = Some three_tasks, loops = [LTop],
       watches = [WWait 0]\<rparr>"
    by (simp add: one_submitted_def two_submitted_state_def started_eq sched_simps eval_simps)
  have both_read: "loops (run (take 3 submission_races_completion) one_submitted)
        = [LIncWrite 1 (two_submitted_state\<lparr>currentIndex := Some 1, pendingTasks := Some 1\<rparr>)]
      \<and> watches (run (take 3 submission_races_completion) one_submitted) = [WSuccWrite 1 0]"
    unfolding one
    by (simp add: submission_races_completion_def two_submitted_state_def eval_simps)
  have race: "stored_pending (run (take 4 submission_races_completion) one_submitted) = 0
      \<and> stored_pending (run submission_races_completion one_submitted) = 2
      \<and> watches (run submission_races_completion one_submitted) = [WVerify 1, WWait 1]"
    unfolding one
    by (simp add: submission_races_completion_def two_submitted_state_def eval_simps)
  have start: "stored_pending started_ten = 0 \<and> loops started_ten = [LTop]"
    unfolding ten by (simp add: stored_pending_def num_or0_def)
  have "stored_pending one_submitted = 1 \<and> watches one_submitted = [WWait 0]"
    unfolding one by (simp add: stored_pending_def num_or0_def two_submitted_state_def)
  then show ?thesis using start final race by (simp add: QUEUE_LIMIT_def)
qed

text \<open>
  A loop that was inside \<^verbatim>\<open>processTask\<close> when the queue was cleared finds no state after
  its click, spreads \<^verbatim>\<open>{}\<close> with the next index and stores that.
\<close>

lemma clear_during_submission_restores_state:
  "store (run clear_during_submission started) = Some (no_fields\<lparr>currentIndex := Some 1\<rparr>)
   \<and> loops (run clear_during_submission started) = [LExit]
   \<and> watches (run clear_during_submission started) = [WWait 0]"
  by (simp add: clear_during_submission_def started_eq sched_simps eval_simps)

end
